theory Spec2Isabelle
  imports Complex_Main "HOL-Library.Multiset"
begin

section \<open>The ticket system of the raffle (src/utils/ticketSystem.ts)\<close>

text \<open>
  The module exports three functions: \<open>assignTicketsToGuides\<close> (the allocator),
  \<open>drawRandomTicket\<close> (one draw step) and \<open>drawRandomTickets\<close> (a whole draw session).

  Numbers. The ticket counts, ticket numbers and the requested winner count are JavaScript
  numbers that hold integers; they are modelled as \<open>int\<close>, negative values included. The
  performance metrics are carried through unchanged and are modelled as \<open>real\<close>.
  Limits of the JavaScript engine (largest array length, call-stack depth of a spread
  call, memory) are outside the model.

  Randomness. Both uses of \<open>Math.random()\<close> in the module have the form
  \<open>Math.floor(Math.random() * n)\<close> for a positive integer \<open>n\<close>. The product is a product of
  doubles, rounded before the floor is taken, so the index is not the floor of the exact
  product. The model does not compute with doubles: the random source \<open>rnd\<close> gives, for the
  \<open>k\<close>-th call of \<open>Math.random()\<close> and every \<open>n\<close>, the integer \<open>rnd k n\<close> that
  \<open>Math.floor(Math.random() * n)\<close> evaluates to at that call. Every function that draws
  random numbers takes the number \<open>k\<close> of calls made so far and returns the new count.
  \<open>Math.random()\<close> returns a double \<open>r\<close> with \<open>0 \<le> r < 1\<close>; for such an \<open>r\<close> and \<open>0 < n < 2^53\<close>
  the rounded product is at least 0 and below \<open>n\<close>, so the index lies in \<open>0, ..., n - 1\<close>.
  This is the predicate \<open>unitSource\<close>, and it is all the model knows of the source: how the
  indices are distributed is a matter of the generator and of floating point.

  Outcomes. A JavaScript call either returns or throws. The two entry points
  \<open>assignTicketsToGuides\<close> and \<open>drawRandomTickets\<close> return \<open>error + result\<close>, where \<open>error\<close>
  lists the one error the specification names. The source has no \<open>throw\<close> statement and
  performs no validation, so each of the two bodies is an \<open>Inr\<close>.
\<close>

subsection \<open>Data\<close>

record Guide =
  guideId :: int
  name :: string
  supervisor :: string
  department :: string
  nps :: real
  nrpc :: real
  refundPercent :: real
  totalTickets :: int

record TicketRange =
  rangeStart :: int
  rangeEnd :: int

record GuideWithTickets = Guide +
  ticketNumbers :: "int list"
  ticketRange :: TicketRange

datatype error = InvalidInputError

type_synonym rng = "nat \<Rightarrow> nat \<Rightarrow> int"

definition unitSource :: "rng \<Rightarrow> bool" where
  "unitSource rnd \<longleftrightarrow> (\<forall>k n. 0 < n \<longrightarrow> 0 \<le> rnd k n \<and> rnd k n < int n)"

text \<open>\<open>Math.floor(Math.random() * n)\<close>, for the \<open>k\<close>-th call of \<open>Math.random()\<close>.\<close>

definition randomIndex :: "rng \<Rightarrow> nat \<Rightarrow> nat \<Rightarrow> int" where
  "randomIndex rnd k n = rnd k n"

subsection \<open>The allocator: \<open>assignTicketsToGuides\<close>\<close>

text \<open>\<open>guides.reduce((sum, guide) => sum + guide.totalTickets, 0)\<close>\<close>

definition sumTickets :: "Guide list \<Rightarrow> int" where
  "sumTickets guides = fold (\<lambda>guide sum. sum + totalTickets guide) guides 0"

text \<open>
  \<open>Array.from({ length: totalTickets }, (_, i) => i + 1)\<close>: a length below 1 gives the
  empty array.
\<close>

definition arrayFrom :: "int \<Rightarrow> int list" where
  "arrayFrom len = map (\<lambda>i. int i + 1) [0..<nat len]"

text \<open>
  The destructuring swap \<open>[a[i], a[j]] = [a[j], a[i]]\<close> reads both elements, then writes
  \<open>a[i]\<close>, then \<open>a[j]\<close>.
\<close>

definition swap :: "int list \<Rightarrow> nat \<Rightarrow> nat \<Rightarrow> int list" where
  "swap a i j = a[i := a ! j, j := a ! i]"

text \<open>
  The shuffle loop \<open>for (let i = allTickets.length - 1; i > 0; i--)\<close>, entered at \<open>i\<close> after
  \<open>k\<close> calls of \<open>Math.random()\<close>. (For the empty array the source starts at \<open>-1\<close> and the
  model at \<open>0\<close>; the loop does not run in either.)
\<close>

fun shuffle :: "rng \<Rightarrow> nat \<Rightarrow> nat \<Rightarrow> int list \<Rightarrow> int list \<times> nat" where
  "shuffle rnd k i allTickets =
     (if i > 0 then
        (let j = nat (randomIndex rnd k (i + 1))
         in shuffle rnd (Suc k) (i - 1) (swap allTickets i j))
      else (allTickets, k))"

declare shuffle.simps [simp del]

text \<open>
  The inner loop \<open>for (let i = 0; i < guide.totalTickets; i++)\<close> with its guard
  \<open>ticketIndex < allTickets.length\<close>; the state is \<open>(ticketNumbers, ticketIndex)\<close>.
  (Local variables that share a name with a record field carry a prime.)
\<close>

function pushTickets :: "int list \<Rightarrow> int \<Rightarrow> int \<Rightarrow> int list \<times> nat \<Rightarrow> int list \<times> nat" where
  "pushTickets allTickets guideTickets i (ticketNumbers', ticketIndex) =
     (if i < guideTickets then
        pushTickets allTickets guideTickets (i + 1)
          (if ticketIndex < length allTickets
           then (ticketNumbers' @ [allTickets ! ticketIndex], ticketIndex + 1)
           else (ticketNumbers', ticketIndex))
      else (ticketNumbers', ticketIndex))"
  by pat_completeness auto
termination
  by (relation "measure (\<lambda>(allTickets, guideTickets, i, s). nat (guideTickets - i))") auto

declare pushTickets.simps [simp del]

text \<open>
  The body of \<open>for (const guide of guides)\<close>; the state is
  \<open>(ticketIndex, guidesWithTickets)\<close>.
\<close>

definition assignGuide ::
  "int list \<Rightarrow> Guide \<Rightarrow> nat \<times> GuideWithTickets list \<Rightarrow> nat \<times> GuideWithTickets list" where
  "assignGuide allTickets guide s =
     (case s of (ticketIndex, guidesWithTickets) \<Rightarrow>
        (case pushTickets allTickets (totalTickets guide) 0 ([], ticketIndex) of
           (pushed, ticketIndex') \<Rightarrow>
             (let ticketNumbers' = sort pushed;
                  startTicket = (if length ticketNumbers' > 0 then Min (set ticketNumbers') else 0);
                  endTicket = (if length ticketNumbers' > 0 then Max (set ticketNumbers') else 0)
              in (ticketIndex',
                  guidesWithTickets @
                  [\<lparr>guideId = guideId guide, name = name guide, supervisor = supervisor guide,
                    department = department guide, nps = nps guide, nrpc = nrpc guide,
                    refundPercent = refundPercent guide, totalTickets = totalTickets guide,
                    ticketNumbers = ticketNumbers',
                    ticketRange = \<lparr>rangeStart = startTicket, rangeEnd = endTicket\<rparr>\<rparr>]))))"

definition assignTicketsToGuides ::
  "rng \<Rightarrow> nat \<Rightarrow> Guide list \<Rightarrow> error + (GuideWithTickets list \<times> nat)" where
  "assignTicketsToGuides rnd k guides =
     (let totalTickets' = sumTickets guides;
          allTickets = arrayFrom totalTickets'
      in (case shuffle rnd k (length allTickets - 1) allTickets of
            (shuffled, k') \<Rightarrow>
              Inr (snd (fold (assignGuide shuffled) guides (0, [])), k')))"

subsection \<open>The store of a draw session\<close>

text \<open>
  \<open>drawRandomTickets\<close> receives an array of guide objects, copies it and removes winners
  from the copy; \<open>indexOf\<close> compares guides by object identity. Guide objects and arrays of
  guides therefore live in a store: a \<open>ref\<close> is an address, \<open>guideObjs\<close> holds the guide
  objects, \<open>guideArrays\<close> the arrays (lists of references to guides), and \<open>nextRef\<close> is the
  first address that has not been allocated. Arrays that one function creates and no other
  code reaches before it returns (\<open>allAvailableTickets\<close>, \<open>winners\<close>, \<open>drawnTickets\<close>) are
  values of the model.
\<close>

type_synonym ref = nat

record store =
  guideObjs :: "ref \<Rightarrow> GuideWithTickets"
  guideArrays :: "ref \<Rightarrow> ref list"
  nextRef :: ref

text \<open>An element \<open>{ ticket, guide }\<close> of \<open>allAvailableTickets\<close>.\<close>

record candidate =
  ticket :: int
  guide :: ref

text \<open>The result \<open>{ winner, drawnTicket }\<close> of one draw; \<open>None\<close> is \<open>null\<close>.\<close>

record draw =
  winner :: "ref option"
  drawnTicket :: "int option"

text \<open>The result \<open>{ winners, drawnTickets }\<close> of a session.\<close>

record draws =
  winners :: "ref list"
  drawnTickets :: "int list"

text \<open>The array copy \<open>[...xs]\<close>: a new array at the first free address.\<close>

definition copyArray :: "store \<Rightarrow> ref \<Rightarrow> ref \<times> store" where
  "copyArray h a =
     (nextRef h,
      h\<lparr>guideArrays := (guideArrays h)(nextRef h := guideArrays h a),
        nextRef := Suc (nextRef h)\<rparr>)"

text \<open>\<open>Array.prototype.indexOf\<close>: the first position of the element, \<open>-1\<close> when absent.\<close>

fun indexOf :: "'a list \<Rightarrow> 'a \<Rightarrow> int" where
  "indexOf [] x = -1"
| "indexOf (y # ys) x =
     (if y = x then 0
      else (let r = indexOf ys x in if r < 0 then -1 else r + 1))"

text \<open>
  \<open>xs.splice(index, 1)\<close> as it leaves \<open>xs\<close>: a negative index counts from the end (and stops
  at the front), an index beyond the end removes nothing.
\<close>

definition splice1 :: "'a list \<Rightarrow> int \<Rightarrow> 'a list" where
  "splice1 xs index =
     (let len = int (length xs);
          start = (if index < 0 then max (len + index) 0 else min index len)
      in take (nat start) xs @ drop (nat start + 1) xs)"

subsection \<open>One draw: \<open>drawRandomTicket\<close>\<close>

text \<open>The two nested \<open>forEach\<close> loops that fill \<open>allAvailableTickets\<close> by \<open>push\<close>.\<close>

definition allAvailableTickets :: "store \<Rightarrow> ref list \<Rightarrow> candidate list" where
  "allAvailableTickets h guidesWithTickets =
     fold (\<lambda>g acc. fold (\<lambda>ticketNumber acc'. acc' @ [\<lparr>ticket = ticketNumber, guide = g\<rparr>])
                      (ticketNumbers (guideObjs h g)) acc)
          guidesWithTickets []"

text \<open>
  \<open>drawRandomTicket\<close> reads the array at \<open>a\<close> and the guides it refers to and writes nothing
  to the store. It calls \<open>Math.random()\<close> only when there is a candidate.
\<close>

definition drawRandomTicket :: "store \<Rightarrow> ref \<Rightarrow> rng \<Rightarrow> nat \<Rightarrow> draw \<times> nat" where
  "drawRandomTicket h a rnd k =
     (let allAvailable = allAvailableTickets h (guideArrays h a)
      in if length allAvailable = 0 then (\<lparr>winner = None, drawnTicket = None\<rparr>, k)
         else (let selectedTicket = allAvailable ! nat (randomIndex rnd k (length allAvailable))
               in (\<lparr>winner = Some (guide selectedTicket),
                    drawnTicket = Some (ticket selectedTicket)\<rparr>, Suc k)))"

subsection \<open>A draw session: \<open>drawRandomTickets\<close>\<close>

text \<open>
  The loop state: the store, the two result arrays and the number of \<open>Math.random()\<close>
  calls. \<open>drawBody\<close> is the loop body for the working array at \<open>availableGuides\<close>; the
  test \<open>winnerGuide && drawnTicket\<close> fails for \<open>null\<close> and for the number \<open>0\<close>.
\<close>

type_synonym session = "store \<times> draws \<times> nat"

definition drawBody :: "rng \<Rightarrow> ref \<Rightarrow> session \<Rightarrow> session" where
  "drawBody rnd availableGuides s =
     (case s of (h, res, k) \<Rightarrow>
        (case drawRandomTicket h availableGuides rnd k of (d, k') \<Rightarrow>
           (case (winner d, drawnTicket d) of
              (Some winnerGuide, Some t) \<Rightarrow>
                if t \<noteq> 0 then
                  (let index = indexOf (guideArrays h availableGuides) winnerGuide
                   in (h\<lparr>guideArrays := (guideArrays h)
                          (availableGuides := splice1 (guideArrays h availableGuides) index)\<rparr>,
                       \<lparr>winners = winners res @ [winnerGuide],
                        drawnTickets = drawnTickets res @ [t]\<rparr>,
                       k'))
                else (h, res, k')
            | _ \<Rightarrow> (h, res, k'))))"

text \<open>\<open>for (let i = 0; i < count && availableGuides.length > 0; i++)\<close>\<close>

function drawLoop :: "rng \<Rightarrow> ref \<Rightarrow> int \<Rightarrow> int \<Rightarrow> session \<Rightarrow> session" where
  "drawLoop rnd availableGuides count' i s =
     (if i < count' \<and> length (guideArrays (fst s) availableGuides) > 0
      then drawLoop rnd availableGuides count' (i + 1) (drawBody rnd availableGuides s)
      else s)"
  by pat_completeness auto
termination
  by (relation "measure (\<lambda>(rnd, availableGuides, count', i, s). nat (count' - i))") auto

declare drawLoop.simps [simp del]

text \<open>
  \<open>drawRandomTickets(guidesWithTickets, count)\<close> for the array at \<open>a\<close>: the result object,
  the store it leaves and the number of \<open>Math.random()\<close> calls (\<open>count'\<close> is the
  parameter \<open>count\<close>).
\<close>

definition drawRandomTickets ::
  "store \<Rightarrow> ref \<Rightarrow> int \<Rightarrow> rng \<Rightarrow> nat \<Rightarrow> error + (draws \<times> store \<times> nat)" where
  "drawRandomTickets h a count' rnd k =
     (case copyArray h a of (availableGuides, h1) \<Rightarrow>
        (case drawLoop rnd availableGuides count' 0
                (h1, \<lparr>winners = [], drawnTickets = []\<rparr>, k) of
           (h2, res, k') \<Rightarrow> Inr (res, h2, k')))"

subsection \<open>The shuffle as the specification words it\<close>

text \<open>
  The specification describes the shuffle as: for index \<open>i\<close> from \<open>N - 1\<close> down to \<open>1\<close>, swap
  element \<open>i\<close> with the element at a chosen index in \<open>[0, i]\<close>. \<open>fisherYatesSpec\<close> follows
  these words, with the index chosen at step \<open>i\<close> given by \<open>pick i\<close>; it is compared with
  \<open>shuffle\<close>, the loop of the source.
\<close>

definition fisherYatesSpec :: "(nat \<Rightarrow> nat) \<Rightarrow> int list \<Rightarrow> int list" where
  "fisherYatesSpec pick xs =
     fold (\<lambda>i ys. ys[i := ys ! pick i, pick i := ys ! i]) (rev [1..<length xs]) xs"

subsection \<open>Invariants of the draw loop\<close>

text \<open>
  What a session leaves alone: the guide objects, the allocation pointer and every array
  other than the working array \<open>av\<close>.
\<close>

definition frameInv :: "store \<Rightarrow> ref \<Rightarrow> session \<Rightarrow> bool" where
  "frameInv h av s \<longleftrightarrow>
     guideObjs (fst s) = guideObjs h \<and> nextRef (fst s) = nextRef h \<and>
     (\<forall>b. b \<noteq> av \<longrightarrow> guideArrays (fst s) b = guideArrays h b)"

text \<open>
  What a session keeps true: winners and remaining guides together are the pool, and
  every drawn ticket is one of its winner's ticket numbers.
\<close>

definition sessionInv :: "store \<Rightarrow> ref list \<Rightarrow> ref \<Rightarrow> session \<Rightarrow> bool" where
  "sessionInv h pool av s \<longleftrightarrow>
     (case s of (h', res, k) \<Rightarrow>
        guideObjs h' = guideObjs h \<and>
        mset (winners res) + mset (guideArrays h' av) = mset pool \<and>
        length (drawnTickets res) = length (winners res) \<and>
        (\<forall>i < length (winners res).
            drawnTickets res ! i \<in> set (ticketNumbers (guideObjs h (winners res ! i)))))"

subsection \<open>Example data\<close>

text \<open>
  A roster of three guides with 3, 2 and 0 tickets, and the guides with tickets that the
  allocator makes of it when every call of \<open>Math.random()\<close> returns the double \<open>0.5\<close>.
\<close>

definition rosterGuide :: "int \<Rightarrow> string \<Rightarrow> int \<Rightarrow> Guide" where
  "rosterGuide i n t =
     \<lparr>guideId = i, name = n, supervisor = ''S'', department = ''D'', nps = 0, nrpc = 0,
      refundPercent = 0, totalTickets = t\<rparr>"

definition guideA :: GuideWithTickets where
  "guideA = \<lparr>guideId = 1, name = ''A'', supervisor = ''S'', department = ''D'', nps = 0, nrpc = 0,
     refundPercent = 0, totalTickets = 3, ticketNumbers = [1, 2, 4],
     ticketRange = \<lparr>rangeStart = 1, rangeEnd = 4\<rparr>\<rparr>"

definition guideB :: GuideWithTickets where
  "guideB = \<lparr>guideId = 2, name = ''B'', supervisor = ''S'', department = ''D'', nps = 0, nrpc = 0,
     refundPercent = 0, totalTickets = 2, ticketNumbers = [3, 5],
     ticketRange = \<lparr>rangeStart = 3, rangeEnd = 5\<rparr>\<rparr>"

definition guideC :: GuideWithTickets where
  "guideC = \<lparr>guideId = 3, name = ''C'', supervisor = ''S'', department = ''D'', nps = 0, nrpc = 0,
     refundPercent = 0, totalTickets = 0, ticketNumbers = [],
     ticketRange = \<lparr>rangeStart = 0, rangeEnd = 0\<rparr>\<rparr>"

text \<open>
  A store with the three guides at the addresses 0, 1 and 2 and six arrays: the two
  ticket holders at address 3, the first guide listed twice at 4, the guide without
  tickets alone at 5, the second guide alone at 6, the first guide twice and then the
  second at 7, and the empty array at 8.
\<close>

definition exampleStore :: store where
  "exampleStore =
     \<lparr>guideObjs = (\<lambda>r. if r = 0 then guideA else if r = 1 then guideB else guideC),
      guideArrays = (\<lambda>r. if r = 3 then [0, 1] else if r = 4 then [0, 0]
                         else if r = 5 then [2] else if r = 6 then [1]
                         else if r = 7 then [0, 0, 1] else []),
      nextRef = 9\<rparr>"

text \<open>
  The random source of a generator that returns the double \<open>0.5\<close> at every call: the
  product \<open>0.5 * n\<close> is exact, and its floor is \<open>n div 2\<close>.
\<close>

definition half :: rng where
  "half = (\<lambda>k n. int (n div 2))"

section \<open>Properties\<close>

subsection \<open>Random indices\<close>

lemma randomIndex_range:
  assumes "unitSource rnd" "0 < n"
  shows "0 \<le> randomIndex rnd k n" "randomIndex rnd k n < int n"
  using assms by (simp_all add: unitSource_def randomIndex_def)

lemma randomIndex_nat_le:
  assumes "unitSource rnd"
  shows "nat (randomIndex rnd k (i + 1)) \<le> i"
  using randomIndex_range[OF assms, of "i + 1" k] by simp

subsection \<open>The shuffle\<close>

lemma length_swap [simp]: "length (swap a i j) = length a"
  by (simp add: swap_def)

lemma mset_swap' : "i < length a \<Longrightarrow> j < length a \<Longrightarrow> mset (swap a i j) = mset a"
  unfolding swap_def by (simp add: mset_swap)

lemma shuffle_mset:
  "unitSource rnd \<Longrightarrow> i < length a \<Longrightarrow> mset (fst (shuffle rnd k i a)) = mset a"
proof (induction rnd k i a rule: shuffle.induct)
  case (1 rnd k i a)
  show ?case
  proof (cases "i > 0")
    case True
    let ?j = "nat (randomIndex rnd k (i + 1))"
    have j: "?j \<le> i" using randomIndex_nat_le[OF "1.prems"(1)] .
    have "mset (fst (shuffle rnd (Suc k) (i - 1) (swap a i ?j))) = mset (swap a i ?j)"
      using "1.IH"[OF True refl "1.prems"(1)] "1.prems"(2) by simp
    also have "\<dots> = mset a" using j "1.prems"(2) by (simp add: mset_swap')
    finally show ?thesis using True by (subst shuffle.simps) (simp add: Let_def)
  next
    case False
    then show ?thesis by (subst shuffle.simps) simp
  qed
qed

lemma shuffle_mset_all:
  "unitSource rnd \<Longrightarrow> mset (fst (shuffle rnd k (length a - 1) a)) = mset a"
proof (cases "a = []")
  case True then show ?thesis by (subst shuffle.simps) simp
next
  case False
  assume "unitSource rnd"
  then show ?thesis using False by (intro shuffle_mset) simp_all
qed

lemma shuffle_length:
  "length (fst (shuffle rnd k i a)) = length a"
proof (induction rnd k i a rule: shuffle.induct)
  case (1 rnd k i a)
  show ?case
  proof (cases "i > 0")
    case True
    with "1.IH"[OF True refl] show ?thesis by (subst shuffle.simps) (simp add: Let_def)
  next
    case False
    then show ?thesis by (subst shuffle.simps) simp
  qed
qed

lemma shuffle_fold:
  "shuffle rnd k i xs =
     (fold (\<lambda>i' ys. ys[i' := ys ! nat (randomIndex rnd (k + (i - i')) (i' + 1)),
                       nat (randomIndex rnd (k + (i - i')) (i' + 1)) := ys ! i'])
           (rev [1..<Suc i]) xs,
      k + i)"
proof (induction i arbitrary: k xs)
  case 0
  show ?case by (subst shuffle.simps) simp
next
  case (Suc i)
  let ?p = "\<lambda>k i i'. nat (randomIndex rnd (k + (i - i')) (i' + 1))"
  let ?step = "\<lambda>k i i' (ys :: int list). ys[i' := ys ! ?p k i i', ?p k i i' := ys ! i']"
  have "shuffle rnd k (Suc i) xs =
          shuffle rnd (Suc k) i (swap xs (Suc i) (nat (randomIndex rnd k (Suc i + 1))))"
    by (subst shuffle.simps) (simp add: Let_def)
  also have "\<dots> = (fold (?step (Suc k) i) (rev [1..<Suc i])
                        (swap xs (Suc i) (nat (randomIndex rnd k (Suc i + 1)))), Suc k + i)"
    by (rule Suc.IH)
  also have "fold (?step (Suc k) i) (rev [1..<Suc i])
                        (swap xs (Suc i) (nat (randomIndex rnd k (Suc i + 1))))
           = fold (?step k (Suc i)) (rev [1..<Suc i])
                        (swap xs (Suc i) (nat (randomIndex rnd k (Suc i + 1))))"
  proof (rule fold_cong[OF refl refl])
    fix i' assume "i' \<in> set (rev [1..<Suc i])"
    then have "i' \<le> i" by auto
    then have "Suc k + (i - i') = k + (Suc i - i')" by simp
    then show "?step (Suc k) i i' = ?step k (Suc i) i'" by (simp only:)
  qed
  also have "swap xs (Suc i) (nat (randomIndex rnd k (Suc i + 1))) = ?step k (Suc i) (Suc i) xs"
    by (simp add: swap_def)
  finally show ?case by simp
qed

subsection \<open>The slices of the shuffled array\<close>

lemma pushTickets_closed:
  "pushTickets a t i (tn, idx) =
     (tn @ take (nat (t - i)) (drop idx a), idx + length (take (nat (t - i)) (drop idx a)))"
proof (induction a t i "(tn, idx)" arbitrary: tn idx rule: pushTickets.induct)
  case (1 a t i tn idx)
  show ?case
  proof (cases "i < t")
    case True
    then have n: "nat (t - i) = Suc (nat (t - (i + 1)))" by simp
    show ?thesis
    proof (cases "idx < length a")
      case T2: True
      have "pushTickets a t i (tn, idx) = pushTickets a t (i + 1) (tn @ [a ! idx], idx + 1)"
        using True T2 by (subst pushTickets.simps) simp
      also have "\<dots> = ((tn @ [a ! idx]) @ take (nat (t - (i + 1))) (drop (idx + 1) a),
          (idx + 1) + length (take (nat (t - (i + 1))) (drop (idx + 1) a)))"
        using "1.hyps"[OF True, of "tn @ [a ! idx]" "idx + 1"] T2 by simp
      finally show ?thesis using T2 unfolding n
        by (simp add: Cons_nth_drop_Suc[symmetric] del: length_take)
    next
      case F2: False
      have "pushTickets a t i (tn, idx) = pushTickets a t (i + 1) (tn, idx)"
        using True F2 by (subst pushTickets.simps) simp
      also have "\<dots> = (tn @ take (nat (t - (i + 1))) (drop idx a),
          idx + length (take (nat (t - (i + 1))) (drop idx a)))"
        using "1.hyps"[OF True, of tn idx] F2 by simp
      finally show ?thesis using F2 by simp
    qed
  next
    case False
    then show ?thesis by (subst pushTickets.simps) simp
  qed
qed

lemma assignGuide_eq:
  "assignGuide a g (idx, out) =
     (let sl = sort (take (nat (totalTickets g)) (drop idx a))
      in (idx + length sl,
          out @ [\<lparr>guideId = guideId g, name = name g, supervisor = supervisor g,
                  department = department g, nps = nps g, nrpc = nrpc g,
                  refundPercent = refundPercent g, totalTickets = totalTickets g,
                  ticketNumbers = sl,
                  ticketRange = \<lparr>rangeStart = (if length sl > 0 then Min (set sl) else 0),
                                 rangeEnd = (if length sl > 0 then Max (set sl) else 0)\<rparr>\<rparr>]))"
  by (simp add: assignGuide_def pushTickets_closed Let_def del: length_take)

lemma assignGuide_snd_append:
  "snd (assignGuide a g (idx, out)) = out @ snd (assignGuide a g (idx, []))"
  "fst (assignGuide a g (idx, out)) = fst (assignGuide a g (idx, []))"
  by (simp_all add: assignGuide_eq Let_def)

lemma fold_assignGuide_append:
  "snd (fold (assignGuide a) gs (idx, out)) = out @ snd (fold (assignGuide a) gs (idx, []))"
proof (induction gs arbitrary: idx out)
  case Nil
  then show ?case by simp
next
  case (Cons g gs)
  obtain idx' r where e: "assignGuide a g (idx, []) = (idx', [r])"
    by (simp add: assignGuide_eq Let_def)
  then have e': "assignGuide a g (idx, out) = (idx', out @ [r])"
    using assignGuide_snd_append[of a g idx out] by (cases "assignGuide a g (idx, out)") simp
  show ?case
    using Cons.IH[of idx' "out @ [r]"] Cons.IH[of idx' "[r]"] by (simp add: e e')
qed

lemma fold_assignGuide_Cons:
  "snd (fold (assignGuide a) (g # gs) (idx, [])) =
     (let sl = sort (take (nat (totalTickets g)) (drop idx a))
      in \<lparr>guideId = guideId g, name = name g, supervisor = supervisor g,
                  department = department g, nps = nps g, nrpc = nrpc g,
                  refundPercent = refundPercent g, totalTickets = totalTickets g,
                  ticketNumbers = sl,
                  ticketRange = \<lparr>rangeStart = (if length sl > 0 then Min (set sl) else 0),
                                 rangeEnd = (if length sl > 0 then Max (set sl) else 0)\<rparr>\<rparr>
         # snd (fold (assignGuide a) gs (idx + length sl, [])))"
proof -
  let ?sl = "sort (take (nat (totalTickets g)) (drop idx a))"
  let ?r = "\<lparr>guideId = guideId g, name = name g, supervisor = supervisor g,
                  department = department g, nps = nps g, nrpc = nrpc g,
                  refundPercent = refundPercent g, totalTickets = totalTickets g,
                  ticketNumbers = ?sl,
                  ticketRange = \<lparr>rangeStart = (if length ?sl > 0 then Min (set ?sl) else 0),
                                 rangeEnd = (if length ?sl > 0 then Max (set ?sl) else 0)\<rparr>\<rparr>"
  have "fold (assignGuide a) (g # gs) (idx, []) = fold (assignGuide a) gs (idx + length ?sl, [?r])"
    by (simp only: fold_simps comp_apply assignGuide_eq Let_def append_Nil)
  then have "snd (fold (assignGuide a) (g # gs) (idx, [])) =
      [?r] @ snd (fold (assignGuide a) gs (idx + length ?sl, []))"
    by (simp only: fold_assignGuide_append[of a gs "idx + length ?sl" "[?r]"])
  then show ?thesis by (simp only: Let_def append_Cons append_Nil)
qed

lemma fold_assignGuide_length:
  "length (snd (fold (assignGuide a) gs (idx, []))) = length gs"
proof (induction gs arbitrary: idx)
  case Nil then show ?case by simp
next
  case (Cons g gs)
  show ?case unfolding fold_assignGuide_Cons Let_def using Cons.IH by simp
qed

lemma fold_assignGuide_nonpositive:
  "i < length gs \<Longrightarrow> totalTickets (gs ! i) \<le> 0 \<Longrightarrow>
     ticketNumbers (snd (fold (assignGuide a) gs (idx, [])) ! i) = [] \<and>
     ticketRange (snd (fold (assignGuide a) gs (idx, [])) ! i) = \<lparr>rangeStart = 0, rangeEnd = 0\<rparr>"
proof (induction gs arbitrary: idx i)
  case Nil then show ?case by simp
next
  case (Cons g gs)
  show ?case
  proof (cases i)
    case 0
    with Cons.prems show ?thesis unfolding fold_assignGuide_Cons Let_def by simp
  next
    case (Suc j)
    with Cons.prems Cons.IH[of j] show ?thesis unfolding fold_assignGuide_Cons Let_def by simp
  qed
qed

lemma fold_assignGuide_sizes:
  "idx + sum_list (map (\<lambda>g. nat (totalTickets g)) gs) \<le> length a \<Longrightarrow> i < length gs \<Longrightarrow>
     length (ticketNumbers (snd (fold (assignGuide a) gs (idx, [])) ! i)) = nat (totalTickets (gs ! i))"
proof (induction gs arbitrary: idx i)
  case Nil then show ?case by simp
next
  case (Cons g gs)
  have l: "length (sort (take (nat (totalTickets g)) (drop idx a))) = nat (totalTickets g)"
    using Cons.prems(1) by simp
  show ?case
  proof (cases i)
    case 0
    then show ?thesis unfolding fold_assignGuide_Cons Let_def using l by simp
  next
    case (Suc j)
    have "idx + nat (totalTickets g) + sum_list (map (\<lambda>g. nat (totalTickets g)) gs) \<le> length a"
      using Cons.prems(1) by simp
    from Cons.IH[OF this, of j] Suc Cons.prems(2)
    show ?thesis unfolding fold_assignGuide_Cons Let_def l by simp
  qed
qed

lemma fold_assignGuide_mset:
  "idx + sum_list (map (\<lambda>g. nat (totalTickets g)) gs) \<le> length a \<Longrightarrow>
     mset (concat (map ticketNumbers (snd (fold (assignGuide a) gs (idx, []))))) =
     mset (take (sum_list (map (\<lambda>g. nat (totalTickets g)) gs)) (drop idx a))"
proof (induction gs arbitrary: idx)
  case Nil then show ?case by simp
next
  case (Cons g gs)
  let ?n = "nat (totalTickets g)"
  have l: "length (sort (take ?n (drop idx a))) = ?n"
    using Cons.prems(1) by simp
  have "idx + ?n + sum_list (map (\<lambda>g. nat (totalTickets g)) gs) \<le> length a"
    using Cons.prems(1) by simp
  from Cons.IH[OF this]
  show ?case unfolding fold_assignGuide_Cons Let_def l
    by (simp add: take_add add.commute)
qed

lemma sumTickets_sum_list: "sumTickets gs = sum_list (map totalTickets gs)"
proof -
  have "fold (\<lambda>guide sum. sum + totalTickets guide) gs s = s + sum_list (map totalTickets gs)" for s
    by (induction gs arbitrary: s) simp_all
  then show ?thesis by (simp add: sumTickets_def)
qed

lemma arrayFrom_upto: "arrayFrom n = [1..n]"
  by (rule nth_equalityI) (simp_all add: arrayFrom_def)

lemma sum_nat_totals:
  "\<forall>g \<in> set gs. 0 \<le> totalTickets g \<Longrightarrow>
     sum_list (map (\<lambda>g. nat (totalTickets g)) gs) = nat (sum_list (map totalTickets gs))"
proof (induction gs)
  case Nil then show ?case by simp
next
  case (Cons g gs)
  then have "0 \<le> sum_list (map totalTickets gs)" by (intro sum_list_nonneg) auto
  with Cons show ?case by (simp add: nat_add_distrib)
qed

lemma distinct_concat_disjoint:
  "distinct (concat xss) \<Longrightarrow> i < j \<Longrightarrow> j < length xss \<Longrightarrow> set (xss ! i) \<inter> set (xss ! j) = {}"
proof (induction xss arbitrary: i j)
  case Nil then show ?case by simp
next
  case (Cons xs xss)
  obtain j' where j: "j = Suc j'" using Cons.prems(2) by (cases j) simp_all
  show ?case
  proof (cases i)
    case 0
    have "xss ! j' \<in> set xss" using Cons.prems(3) j by simp
    then show ?thesis using Cons.prems(1) 0 j by auto
  next
    case (Suc i')
    then show ?thesis using Cons.IH[of i' j'] Cons.prems j by simp
  qed
qed

lemma assignTicketsToGuides_unfold:
  "assignTicketsToGuides rnd k guides =
     Inr (snd (fold (assignGuide (fst (shuffle rnd k (length (arrayFrom (sumTickets guides)) - 1)
                                          (arrayFrom (sumTickets guides))))) guides (0, [])),
          snd (shuffle rnd k (length (arrayFrom (sumTickets guides)) - 1)
                 (arrayFrom (sumTickets guides))))"
  by (simp add: assignTicketsToGuides_def Let_def split: prod.splits)

subsection \<open>One draw\<close>

lemma fold_push_map: "fold (\<lambda>x acc. acc @ [f x]) xs acc = acc @ map f xs"
  by (induction xs arbitrary: acc) simp_all

lemma fold_fold_push:
  "fold (\<lambda>x. fold (\<lambda>t acc. acc @ [f x t]) (T x)) xs acc =
     acc @ concat (map (\<lambda>x. map (f x) (T x)) xs)"
  by (induction xs arbitrary: acc) (simp_all add: fold_push_map)

lemma allAvailableTickets_concat:
  "allAvailableTickets h gs =
     concat (map (\<lambda>g. map (\<lambda>t. \<lparr>ticket = t, guide = g\<rparr>) (ticketNumbers (guideObjs h g))) gs)"
  unfolding allAvailableTickets_def
  by (simp add: fold_fold_push)

lemma candidate_owner:
  "c \<in> set (allAvailableTickets h gs) \<Longrightarrow>
     guide c \<in> set gs \<and> ticket c \<in> set (ticketNumbers (guideObjs h (guide c)))"
  by (auto simp: allAvailableTickets_concat)

lemma allAvailableTickets_empty_iff:
  "allAvailableTickets h gs = [] \<longleftrightarrow> (\<forall>g \<in> set gs. ticketNumbers (guideObjs h g) = [])"
  by (auto simp: allAvailableTickets_concat)

lemma drawRandomTicket_none:
  "allAvailableTickets h (guideArrays h a) = [] \<Longrightarrow>
     drawRandomTicket h a rnd k = (\<lparr>winner = None, drawnTicket = None\<rparr>, k)"
  by (simp add: drawRandomTicket_def)

lemma drawRandomTicket_some:
  assumes "unitSource rnd" "allAvailableTickets h (guideArrays h a) \<noteq> []"
  shows "\<exists>w t. drawRandomTicket h a rnd k = (\<lparr>winner = Some w, drawnTicket = Some t\<rparr>, Suc k)
           \<and> w \<in> set (guideArrays h a) \<and> t \<in> set (ticketNumbers (guideObjs h w))"
proof -
  let ?all = "allAvailableTickets h (guideArrays h a)"
  let ?c = "?all ! nat (randomIndex rnd k (length ?all))"
  have "0 < length ?all" using assms(2) by simp
  from randomIndex_range[OF assms(1) this, of k]
  have "nat (randomIndex rnd k (length ?all)) < length ?all" by simp
  then have "?c \<in> set ?all" by (rule nth_mem)
  from candidate_owner[OF this]
  have "guide ?c \<in> set (guideArrays h a)" "ticket ?c \<in> set (ticketNumbers (guideObjs h (guide ?c)))"
    by simp_all
  moreover have "drawRandomTicket h a rnd k = (\<lparr>winner = Some (guide ?c), drawnTicket = Some (ticket ?c)\<rparr>, Suc k)"
    using assms(2) by (simp add: drawRandomTicket_def Let_def)
  ultimately show ?thesis by blast
qed

lemma indexOf_range: "x \<in> set xs \<Longrightarrow> 0 \<le> indexOf xs x \<and> indexOf xs x < int (length xs)"
  by (induction xs) (auto simp: Let_def)

lemma splice1_Cons_0: "splice1 (y # ys) 0 = ys"
  by (simp add: splice1_def)

lemma splice1_Cons_Suc: "0 \<le> r \<Longrightarrow> splice1 (y # ys) (r + 1) = y # splice1 ys r"
  by (simp add: splice1_def Let_def nat_add_distrib min_def)

lemma splice1_indexOf: "x \<in> set xs \<Longrightarrow> splice1 xs (indexOf xs x) = remove1 x xs"
proof (induction xs)
  case Nil then show ?case by simp
next
  case (Cons y ys)
  show ?case
  proof (cases "y = x")
    case True then show ?thesis by (simp add: splice1_Cons_0)
  next
    case False
    with Cons.prems have x: "x \<in> set ys" by simp
    from indexOf_range[OF x] have r: "0 \<le> indexOf ys x" by simp
    then show ?thesis using False Cons.IH[OF x]
      by (simp add: Let_def splice1_Cons_Suc)
  qed
qed

lemma drawBody_idle:
  "allAvailableTickets h (guideArrays h av) = [] \<Longrightarrow> drawBody rnd av (h, res, k) = (h, res, k)"
  by (simp add: drawBody_def drawRandomTicket_none)

lemma drawBody_draw:
  assumes "unitSource rnd" "allAvailableTickets h (guideArrays h av) \<noteq> []"
  shows "\<exists>w t. w \<in> set (guideArrays h av) \<and> t \<in> set (ticketNumbers (guideObjs h w)) \<and>
           drawBody rnd av (h, res, k) =
             (if t \<noteq> 0
              then (h\<lparr>guideArrays := (guideArrays h)(av := remove1 w (guideArrays h av))\<rparr>,
                    \<lparr>winners = winners res @ [w], drawnTickets = drawnTickets res @ [t]\<rparr>, Suc k)
              else (h, res, Suc k))"
proof -
  from drawRandomTicket_some[OF assms, of k] obtain w t where
    d: "drawRandomTicket h av rnd k = (\<lparr>winner = Some w, drawnTicket = Some t\<rparr>, Suc k)"
    and w: "w \<in> set (guideArrays h av)" and t: "t \<in> set (ticketNumbers (guideObjs h w))"
    by blast
  have "drawBody rnd av (h, res, k) =
             (if t \<noteq> 0
              then (h\<lparr>guideArrays := (guideArrays h)(av := remove1 w (guideArrays h av))\<rparr>,
                    \<lparr>winners = winners res @ [w], drawnTickets = drawnTickets res @ [t]\<rparr>, Suc k)
              else (h, res, Suc k))"
    by (simp add: drawBody_def d Let_def splice1_indexOf[OF w])
  with w t show ?thesis by blast
qed

lemma allAvailableTickets_append:
  "allAvailableTickets h (xs @ ys) = allAvailableTickets h xs @ allAvailableTickets h ys"
  by (simp add: allAvailableTickets_concat)

lemma allAvailableTickets_single:
  "allAvailableTickets h [g] = map (\<lambda>t. \<lparr>ticket = t, guide = g\<rparr>) (ticketNumbers (guideObjs h g))"
  by (simp add: allAvailableTickets_concat)

lemma allAvailableTickets_length:
  "length (allAvailableTickets h gs) = sum_list (map (\<lambda>g. length (ticketNumbers (guideObjs h g))) gs)"
  by (simp add: allAvailableTickets_concat length_concat comp_def)

lemma owner_at_index:
  assumes "g \<notin> set pre" "g \<notin> set post"
    and "j < length (allAvailableTickets h (pre @ g # post))"
  shows "guide (allAvailableTickets h (pre @ g # post) ! j) = g \<longleftrightarrow>
           length (allAvailableTickets h pre) \<le> j \<and>
           j < length (allAvailableTickets h pre) + length (ticketNumbers (guideObjs h g))"
proof -
  let ?A = "allAvailableTickets h pre"
  let ?B = "allAvailableTickets h [g]"
  let ?C = "allAvailableTickets h post"
  have all: "allAvailableTickets h (pre @ g # post) = ?A @ ?B @ ?C"
    using allAvailableTickets_append[of h pre "[g] @ post"] allAvailableTickets_append[of h "[g]" post]
    by simp
  have lB: "length ?B = length (ticketNumbers (guideObjs h g))"
    by (simp add: allAvailableTickets_single)
  consider (a) "j < length ?A" | (b) "length ?A \<le> j" "j < length ?A + length ?B"
    | (c) "length ?A + length ?B \<le> j" by linarith
  then show ?thesis
  proof cases
    case a
    then have "(?A @ ?B @ ?C) ! j \<in> set ?A" by (simp add: nth_append)
    from candidate_owner[OF this] assms(1) a show ?thesis unfolding all by auto
  next
    case b
    then have "(?A @ ?B @ ?C) ! j = ?B ! (j - length ?A)" by (simp add: nth_append)
    moreover have "?B ! (j - length ?A) \<in> set ?B" using b by (intro nth_mem) simp
    then have "guide (?B ! (j - length ?A)) = g" using candidate_owner by fastforce
    ultimately show ?thesis using b unfolding all lB by simp
  next
    case c
    then have "(?A @ ?B @ ?C) ! j = ?C ! (j - length ?A - length ?B)"
      by (simp add: nth_append)
    moreover have "j - length ?A - length ?B < length ?C" using c assms(3) unfolding all by simp
    then have "?C ! (j - length ?A - length ?B) \<in> set ?C" by (rule nth_mem)
    from candidate_owner[OF this] have "guide (?C ! (j - length ?A - length ?B)) \<in> set post" by simp
    ultimately show ?thesis using c assms(2) unfolding all lB by auto
  qed
qed

lemma owner_positions:
  assumes "g \<notin> set pre" "g \<notin> set post"
  shows "{j. j < length (allAvailableTickets h (pre @ g # post)) \<and>
             guide (allAvailableTickets h (pre @ g # post) ! j) = g}
         = {length (allAvailableTickets h pre) ..<
            length (allAvailableTickets h pre) + length (ticketNumbers (guideObjs h g))}"
proof -
  have len: "length (allAvailableTickets h (pre @ g # post)) =
      length (allAvailableTickets h pre) + length (ticketNumbers (guideObjs h g)) +
      length (allAvailableTickets h post)"
    using allAvailableTickets_append[of h pre "g # post"] allAvailableTickets_append[of h "[g]" post]
    by (simp add: allAvailableTickets_single)
  show ?thesis
  proof (rule set_eqI)
    fix j
    show "j \<in> {j. j < length (allAvailableTickets h (pre @ g # post)) \<and>
             guide (allAvailableTickets h (pre @ g # post) ! j) = g}
         \<longleftrightarrow> j \<in> {length (allAvailableTickets h pre) ..<
            length (allAvailableTickets h pre) + length (ticketNumbers (guideObjs h g))}"
    proof (cases "j < length (allAvailableTickets h (pre @ g # post))")
      case True
      from owner_at_index[OF assms True] True show ?thesis by simp
    next
      case False
      then show ?thesis using len by simp
    qed
  qed
qed

subsection \<open>The draw loop\<close>

lemma drawLoop_invariant:
  "(\<And>s. P s \<Longrightarrow> guideArrays (fst s) av \<noteq> [] \<Longrightarrow> P (drawBody rnd av s)) \<Longrightarrow>
     P s \<Longrightarrow> P (drawLoop rnd av c i s)"
proof (induction rnd av c i s rule: drawLoop.induct)
  case (1 rnd av c i s)
  show ?case
  proof (cases "i < c \<and> length (guideArrays (fst s) av) > 0")
    case True
    then have "P (drawBody rnd av s)" using "1.prems" by simp
    then have "P (drawLoop rnd av c (i + 1) (drawBody rnd av s))"
      using True "1.IH" "1.prems"(1) by blast
    then show ?thesis using True by (subst drawLoop.simps) simp
  next
    case False
    then show ?thesis using "1.prems" by (subst drawLoop.simps) auto
  qed
qed

lemma drawLoop_stop: "\<not> (i < c \<and> guideArrays (fst s) av \<noteq> []) \<Longrightarrow> drawLoop rnd av c i s = s"
  by (subst drawLoop.simps) auto

lemma drawLoop_step: "i < c \<Longrightarrow> guideArrays (fst s) av \<noteq> [] \<Longrightarrow>
   drawLoop rnd av c i s = drawLoop rnd av c (i + 1) (drawBody rnd av s)"
  by (subst drawLoop.simps) simp

lemma drawBody_store:
  "\<exists>xs. fst (drawBody rnd av (h, res, k)) = h\<lparr>guideArrays := (guideArrays h)(av := xs)\<rparr>"
proof -
  have triv: "h = h\<lparr>guideArrays := (guideArrays h)(av := guideArrays h av)\<rparr>" by simp
  show ?thesis
    unfolding drawBody_def
    by (auto split: prod.splits option.splits simp: Let_def intro: triv)
qed

lemma drawBody_frame: "frameInv h av s \<Longrightarrow> frameInv h av (drawBody rnd av s)"
proof -
  assume a: "frameInv h av s"
  obtain h' res k where s: "s = (h', res, k)" by (cases s)
  from drawBody_store[of rnd av h' res k] obtain xs where
    "fst (drawBody rnd av s) = h'\<lparr>guideArrays := (guideArrays h')(av := xs)\<rparr>" unfolding s by blast
  then show ?thesis using a by (simp add: frameInv_def s)
qed

lemma drawLoop_frame: "frameInv h av s \<Longrightarrow> frameInv h av (drawLoop rnd av c i s)"
  by (rule drawLoop_invariant[where P = "frameInv h av"]) (auto intro: drawBody_frame)

lemma drawBody_session:
  assumes "unitSource rnd" "sessionInv h pool av s"
  shows "sessionInv h pool av (drawBody rnd av s)"
proof -
  obtain h' res k where s: "s = (h', res, k)" by (cases s)
  from assms(2) have inv: "guideObjs h' = guideObjs h"
     "mset (winners res) + mset (guideArrays h' av) = mset pool"
     "length (drawnTickets res) = length (winners res)"
     "\<forall>i < length (winners res).
            drawnTickets res ! i \<in> set (ticketNumbers (guideObjs h (winners res ! i)))"
    by (simp_all add: sessionInv_def s)
  show ?thesis
  proof (cases "allAvailableTickets h' (guideArrays h' av) = []")
    case True
    then show ?thesis using assms(2) by (simp add: s drawBody_idle)
  next
    case False
    from drawBody_draw[OF assms(1) False, of res k] obtain w t where
      w: "w \<in> set (guideArrays h' av)" and t: "t \<in> set (ticketNumbers (guideObjs h' w))" and
      b: "drawBody rnd av (h', res, k) =
             (if t \<noteq> 0
              then (h'\<lparr>guideArrays := (guideArrays h')(av := remove1 w (guideArrays h' av))\<rparr>,
                    \<lparr>winners = winners res @ [w], drawnTickets = drawnTickets res @ [t]\<rparr>, Suc k)
              else (h', res, Suc k))" by blast
    show ?thesis
    proof (cases "t = 0")
      case True
      then show ?thesis using b inv by (simp add: s sessionInv_def)
    next
      case F: False
      have "add_mset w (mset (remove1 w (guideArrays h' av))) = mset (guideArrays h' av)"
        using w by simp
      then have "mset (winners res) + add_mset w (mset (remove1 w (guideArrays h' av))) = mset pool"
        using inv(2) by (simp only:)
      then have m: "mset (winners res @ [w]) + mset (remove1 w (guideArrays h' av)) = mset pool"
        by (simp del: mset_remove1)
      have n: "\<forall>i < length (winners res @ [w]).
            (drawnTickets res @ [t]) ! i \<in> set (ticketNumbers (guideObjs h ((winners res @ [w]) ! i)))"
        using inv(3,4) t inv(1) by (auto simp: nth_append less_Suc_eq)
      show ?thesis using F b inv(1,3) m n by (simp add: s sessionInv_def)
    qed
  qed
qed

lemma drawLoop_session:
  "unitSource rnd \<Longrightarrow> sessionInv h pool av s \<Longrightarrow> sessionInv h pool av (drawLoop rnd av c i s)"
  by (rule drawLoop_invariant[where P = "sessionInv h pool av"]) (auto intro: drawBody_session)

lemma drawLoop_count:
  "unitSource rnd \<Longrightarrow>
   \<forall>g \<in> set (guideArrays (fst s) av). 0 \<notin> set (ticketNumbers (guideObjs (fst s) g)) \<Longrightarrow>
   length (winners (fst (snd (drawLoop rnd av c i s)))) =
     length (winners (fst (snd s))) +
     min (nat (c - i))
         (length (filter (\<lambda>g. ticketNumbers (guideObjs (fst s) g) \<noteq> []) (guideArrays (fst s) av)))"
proof (induction rnd av c i s rule: drawLoop.induct)
  case (1 rnd av c i s)
  obtain h res k where s: "s = (h, res, k)" by (cases s)
  let ?holds = "\<lambda>h g. ticketNumbers (guideObjs h g) \<noteq> []"
  show ?case
  proof (cases "i < c \<and> length (guideArrays (fst s) av) > 0")
    case False
    then have "nat (c - i) = 0 \<or> guideArrays (fst s) av = []" by auto
    then show ?thesis using False by (auto simp: drawLoop_stop)
  next
    case True
    then have ic: "i < c" and ne: "guideArrays h av \<noteq> []" by (simp_all add: s)
    have step: "drawLoop rnd av c i s = drawLoop rnd av c (i + 1) (drawBody rnd av s)"
      using True by (simp add: drawLoop_step)
    show ?thesis
    proof (cases "allAvailableTickets h (guideArrays h av) = []")
      case E: True
      then have idle: "drawBody rnd av s = s" by (simp add: s drawBody_idle)
      from E have "filter (?holds h) (guideArrays h av) = []"
        by (auto simp: allAvailableTickets_empty_iff filter_empty_conv)
      then show ?thesis
        using "1.IH"[OF True "1.prems"(1)] "1.prems"(2) step idle by (simp add: s)
    next
      case NE: False
      from drawBody_draw[OF "1.prems"(1) NE, of res k] obtain w t where
        w: "w \<in> set (guideArrays h av)" and t: "t \<in> set (ticketNumbers (guideObjs h w))" and
        b: "drawBody rnd av (h, res, k) =
             (if t \<noteq> 0
              then (h\<lparr>guideArrays := (guideArrays h)(av := remove1 w (guideArrays h av))\<rparr>,
                    \<lparr>winners = winners res @ [w], drawnTickets = drawnTickets res @ [t]\<rparr>, Suc k)
              else (h, res, Suc k))" by blast
      from "1.prems"(2) w t have t0: "t \<noteq> 0" by (auto simp: s)
      let ?s' = "(h\<lparr>guideArrays := (guideArrays h)(av := remove1 w (guideArrays h av))\<rparr>,
                    \<lparr>winners = winners res @ [w], drawnTickets = drawnTickets res @ [t]\<rparr>, Suc k)"
      have b': "drawBody rnd av s = ?s'" using b t0 by (simp add: s)
      have pre: "\<forall>g \<in> set (guideArrays (fst ?s') av). 0 \<notin> set (ticketNumbers (guideObjs (fst ?s') g))"
        using "1.prems"(2) by (auto simp: s dest: notin_set_remove1)
      have hw: "?holds h w" using t by auto
      then have wf: "w \<in> set (filter (?holds h) (guideArrays h av))" using w by simp
      have len: "length (filter (?holds h) (remove1 w (guideArrays h av)))
                  = length (filter (?holds h) (guideArrays h av)) - 1"
        using wf by (simp add: filter_remove1 length_remove1)
      have pos: "0 < length (filter (?holds h) (guideArrays h av))"
        using wf by (rule length_pos_if_in_set)
      have "length (winners (fst (snd (drawLoop rnd av c (i + 1) ?s')))) =
              length (winners res) + 1 +
              min (nat (c - (i + 1))) (length (filter (?holds h) (guideArrays h av)) - 1)"
        using "1.IH"[OF True "1.prems"(1)] pre len unfolding b' by simp
      also have "\<dots> = length (winners res) +
              min (nat (c - i)) (length (filter (?holds h) (guideArrays h av)))"
      proof -
        have e: "nat (c - i) = Suc (nat (c - (i + 1)))" using ic by simp
        from pos obtain n where n: "length (filter (?holds h) (guideArrays h av)) = Suc n"
          using gr0_implies_Suc by blast
        show ?thesis unfolding e n by simp
      qed
      finally show ?thesis using step b' by (simp add: s)
    qed
  qed
qed

lemma drawRandomTickets_unfold:
  "drawRandomTickets h a c rnd k =
     (case drawLoop rnd (nextRef h) c 0
            (h\<lparr>guideArrays := (guideArrays h)(nextRef h := guideArrays h a),
               nextRef := Suc (nextRef h)\<rparr>,
             \<lparr>winners = [], drawnTickets = []\<rparr>, k) of
        (h2, res, k') \<Rightarrow> Inr (res, h2, k'))"
  by (simp add: drawRandomTickets_def copyArray_def)

lemma session_start:
  "sessionInv h (guideArrays h a) (nextRef h)
     (h\<lparr>guideArrays := (guideArrays h)(nextRef h := guideArrays h a), nextRef := Suc (nextRef h)\<rparr>,
      \<lparr>winners = [], drawnTickets = []\<rparr>, k)"
  by (simp add: sessionInv_def)

lemma drawRandomTickets_session:
  assumes "unitSource rnd"
  shows "\<exists>res h' k'. drawRandomTickets h a c rnd k = Inr (res, h', k') \<and>
           sessionInv h (guideArrays h a) (nextRef h) (h', res, k')"
proof -
  let ?s0 = "(h\<lparr>guideArrays := (guideArrays h)(nextRef h := guideArrays h a), nextRef := Suc (nextRef h)\<rparr>,
      \<lparr>winners = [], drawnTickets = []\<rparr>, k)"
  obtain h' res k' where r: "drawLoop rnd (nextRef h) c 0 ?s0 = (h', res, k')"
    by (cases "drawLoop rnd (nextRef h) c 0 ?s0")
  from drawLoop_session[OF assms session_start, of h a c 0 k]
  have "sessionInv h (guideArrays h a) (nextRef h) (h', res, k')" unfolding r .
  moreover have "drawRandomTickets h a c rnd k = Inr (res, h', k')"
    by (simp add: drawRandomTickets_unfold r)
  ultimately show ?thesis by blast
qed

lemma distinct_submset:
  assumes "mset xs \<subseteq># mset ys" "distinct ys"
  shows "distinct xs"
proof -
  have le: "count (mset xs) a \<le> 1" for a
  proof -
    have "count (mset xs) a \<le> count (mset ys) a" using assms(1) by (rule mset_subset_eq_count)
    also have "\<dots> \<le> 1" using assms(2) by (simp add: distinct_count_atmost_1)
    finally show ?thesis .
  qed
  show ?thesis
    unfolding distinct_count_atmost_1
  proof
    fix a
    show "count (mset xs) a = (if a \<in> set xs then 1 else 0)"
    proof (cases "a \<in> set xs")
      case True
      then have "0 < count (mset xs) a" by simp
      with le[of a] have "count (mset xs) a = 1" by linarith
      then show ?thesis using True by simp
    next
      case False
      then show ?thesis by (simp add: count_mset_0_iff)
    qed
  qed
qed

text \<open>
  For a pool that lists no guide twice a session returns no guide twice, and every winner
  is a guide of the pool; the same holds with guides told apart by their \<open>id\<close> field.
\<close>

lemma distinct_pool_distinct_winners:
  assumes "unitSource rnd"
  shows "\<exists>res h' k'. drawRandomTickets h a count' rnd k = Inr (res, h', k') \<and>
           set (winners res) \<subseteq> set (guideArrays h a) \<and>
           (distinct (guideArrays h a) \<longrightarrow> distinct (winners res)) \<and>
           (distinct (map (\<lambda>g. guideId (guideObjs h g)) (guideArrays h a)) \<longrightarrow>
              distinct (map (\<lambda>g. guideId (guideObjs h g)) (winners res)))"
proof -
  from drawRandomTickets_session[OF assms(1), of h a count' k] obtain res h' k' where
    r: "drawRandomTickets h a count' rnd k = Inr (res, h', k')" and
    i: "sessionInv h (guideArrays h a) (nextRef h) (h', res, k')" by blast
  from i have m: "mset (winners res) + mset (guideArrays h' (nextRef h)) = mset (guideArrays h a)"
    by (simp add: sessionInv_def)
  have "mset (winners res) \<subseteq># mset (winners res) + mset (guideArrays h' (nextRef h))"
    by (rule mset_subset_eq_add_left)
  then have sub: "mset (winners res) \<subseteq># mset (guideArrays h a)"
    unfolding m .
  have s: "set (winners res) \<subseteq> set (guideArrays h a)"
    using set_mset_mono[OF sub] by simp
  have d: "distinct (guideArrays h a) \<longrightarrow> distinct (winners res)"
    using distinct_submset[OF sub] by (intro impI)
  have sub': "mset (map (\<lambda>g. guideId (guideObjs h g)) (winners res))
          \<subseteq># mset (map (\<lambda>g. guideId (guideObjs h g)) (guideArrays h a))"
    unfolding mset_map using sub by (rule image_mset_subseteq_mono)
  have e: "distinct (map (\<lambda>g. guideId (guideObjs h g)) (guideArrays h a)) \<longrightarrow>
              distinct (map (\<lambda>g. guideId (guideObjs h g)) (winners res))"
    using distinct_submset[OF sub'] by (intro impI)
  show ?thesis using r s d e by blast
qed

subsection \<open>Evaluation of the examples\<close>

lemmas example_defs = exampleStore_def guideA_def guideB_def guideC_def half_def

lemmas draw_defs = drawRandomTickets_def copyArray_def drawBody_def drawRandomTicket_def
  allAvailableTickets_def randomIndex_def splice1_def Let_def

lemmas alloc_defs = assignTicketsToGuides_def sumTickets_def arrayFrom_def assignGuide_def
  swap_def randomIndex_def rosterGuide_def Let_def

lemma unitSource_half: "unitSource half"
  by (simp add: unitSource_def half_def)

section \<open>The claims\<close>

text \<open>
  C1: for every pool and every requested count, the winners of \<open>drawRandomTickets\<close> contain
  no participant twice. The source intends this: its comment on the removal reads
  ``Remove the winner from available guides to prevent duplicate wins''. The removal is
  \<open>indexOf\<close> followed by \<open>splice(index, 1)\<close>, which takes out one occurrence of the winner, so
  for a pool that lists a participant twice the other occurrence stays and is drawn again.
  The session below runs on the array at address 4, \<open>[0, 0]\<close>, with count 2 and returns the
  guide at address 0 twice.
\<close>

theorem duplicate_pool_double_win:
  "guideArrays exampleStore 4 = [0, 0] \<and>
   drawRandomTickets exampleStore 4 2 half 0 =
      Inr (\<lparr>winners = [0, 0], drawnTickets = [1, 2]\<rparr>,
           exampleStore\<lparr>guideArrays := (guideArrays exampleStore)(9 := []), nextRef := 10\<rparr>, 2) \<and>
   \<not> distinct [0, 0 :: ref]"
  by (simp add: example_defs draw_defs drawLoop.simps)

text \<open>
  C2: for every list of guides whose ticket counts are not negative,
  \<open>assignTicketsToGuides\<close> returns one output per guide; the guide at position \<open>i\<close> receives
  exactly \<open>totalTickets\<close> ticket numbers; the ticket numbers of all guides together are the
  numbers \<open>1, ..., N\<close>, each once, where \<open>N\<close> is the sum of the ticket counts; so the sets of
  two different guides are disjoint and the union of all is \<open>{1..N}\<close>.
\<close>

theorem allocation_partitions_tickets:
  assumes "unitSource rnd" and "\<forall>g \<in> set guides. 0 \<le> totalTickets g"
  shows "\<exists>res k'. assignTicketsToGuides rnd k guides = Inr (res, k') \<and>
     length res = length guides \<and>
     (\<forall>i < length guides. int (length (ticketNumbers (res ! i))) = totalTickets (guides ! i)) \<and>
     mset (concat (map ticketNumbers res)) = mset [1 .. sum_list (map totalTickets guides)] \<and>
     (\<forall>i < length res. \<forall>j < length res.
         i \<noteq> j \<longrightarrow> set (ticketNumbers (res ! i)) \<inter> set (ticketNumbers (res ! j)) = {}) \<and>
     (\<Union>r \<in> set res. set (ticketNumbers r)) = {1 .. sum_list (map totalTickets guides)}"
proof -
  let ?N = "sum_list (map totalTickets guides)"
  let ?a = "arrayFrom (sumTickets guides)"
  let ?sh = "fst (shuffle rnd k (length ?a - 1) ?a)"
  let ?res = "snd (fold (assignGuide ?sh) guides (0, []))"
  have a: "?a = [1..?N]" by (simp add: arrayFrom_upto sumTickets_sum_list)
  have N0: "0 \<le> ?N" using assms(2) by (intro sum_list_nonneg) auto
  have la: "length ?a = nat ?N" unfolding a by simp
  have msh: "mset ?sh = mset [1..?N]" using shuffle_mset_all[OF assms(1), of k ?a] a by simp
  have lsh: "length ?sh = nat ?N" using shuffle_length[of rnd k "length ?a - 1" ?a] la by simp
  have tot: "sum_list (map (\<lambda>g. nat (totalTickets g)) guides) = nat ?N"
    using sum_nat_totals[OF assms(2)] .
  have fit: "0 + sum_list (map (\<lambda>g. nat (totalTickets g)) guides) \<le> length ?sh"
    using tot lsh by simp
  have r: "assignTicketsToGuides rnd k guides =
             Inr (?res, snd (shuffle rnd k (length ?a - 1) ?a))"
    by (rule assignTicketsToGuides_unfold)
  have len: "length ?res = length guides" by (rule fold_assignGuide_length)
  have sizes: "\<forall>i < length guides. int (length (ticketNumbers (?res ! i))) = totalTickets (guides ! i)"
  proof (intro allI impI)
    fix i assume i: "i < length guides"
    then have "0 \<le> totalTickets (guides ! i)" using assms(2) by simp
    with fold_assignGuide_sizes[OF fit i] show "int (length (ticketNumbers (?res ! i))) = totalTickets (guides ! i)"
      by simp
  qed
  have ms: "mset (concat (map ticketNumbers ?res)) = mset [1..?N]"
    using fold_assignGuide_mset[OF fit] tot lsh msh by simp
  have "distinct [1..?N]" by simp
  then have dist: "distinct (concat (map ticketNumbers ?res))"
    using ms by (metis mset_eq_imp_distinct_iff)
  have disj: "\<forall>i < length ?res. \<forall>j < length ?res.
         i \<noteq> j \<longrightarrow> set (ticketNumbers (?res ! i)) \<inter> set (ticketNumbers (?res ! j)) = {}"
  proof (intro allI impI)
    fix i j assume i: "i < length ?res" and j: "j < length ?res" and ne: "i \<noteq> j"
    have d: "\<And>i j. i < j \<Longrightarrow> j < length ?res \<Longrightarrow>
        set (ticketNumbers (?res ! i)) \<inter> set (ticketNumbers (?res ! j)) = {}"
      using distinct_concat_disjoint[OF dist] by (simp add: nth_map del: fold_simps)
    show "set (ticketNumbers (?res ! i)) \<inter> set (ticketNumbers (?res ! j)) = {}"
    proof (cases "i < j")
      case True then show ?thesis using d[OF True j] by simp
    next
      case False
      then have "j < i" using ne by simp
      from d[OF this i] show ?thesis by (simp add: Int_commute)
    qed
  qed
  have "set (concat (map ticketNumbers ?res)) = set [1..?N]"
    using ms by (rule mset_eq_setD)
  then have un: "(\<Union>r \<in> set ?res. set (ticketNumbers r)) = {1..?N}" by simp
  show ?thesis using r len sizes ms disj un by blast
qed

theorem allocation_partitions_tickets_witness:
  "unitSource half \<and>
   0 \<le> totalTickets (rosterGuide 1 ''A'' 3) \<and> 0 \<le> totalTickets (rosterGuide 2 ''B'' 2) \<and>
   0 \<le> totalTickets (rosterGuide 3 ''C'' 0) \<and>
   (\<exists>res k'. assignTicketsToGuides half 0
                 [rosterGuide 1 ''A'' 3, rosterGuide 2 ''B'' 2, rosterGuide 3 ''C'' 0] = Inr (res, k') \<and>
      map ticketNumbers res = [[1, 2, 4], [3, 5], []] \<and>
      mset (concat (map ticketNumbers res)) = mset [1 .. 5])"
proof -
  let ?gs = "[rosterGuide 1 ''A'' 3, rosterGuide 2 ''B'' 2, rosterGuide 3 ''C'' 0]"
  have p: "\<forall>g \<in> set ?gs. 0 \<le> totalTickets g" by (simp add: rosterGuide_def)
  have e: "assignTicketsToGuides half 0 ?gs = Inr ([guideA, guideB, guideC], 4)"
    by (simp add: alloc_defs example_defs shuffle.simps pushTickets.simps upt_rec)
  have t: "map ticketNumbers [guideA, guideB, guideC] = [[1, 2, 4], [3, 5], []]"
    by (simp add: example_defs)
  have s: "sum_list (map totalTickets ?gs) = 5" by (simp add: rosterGuide_def)
  from allocation_partitions_tickets[OF unitSource_half p, of 0] obtain res k' where
    r: "assignTicketsToGuides half 0 ?gs = Inr (res, k')" and
    m: "mset (concat (map ticketNumbers res)) = mset [1 .. sum_list (map totalTickets ?gs)]"
    by blast
  from r e have "res = [guideA, guideB, guideC]" by simp
  with t have t': "map ticketNumbers res = [[1, 2, 4], [3, 5], []]" by simp
  have q: "0 \<le> totalTickets (rosterGuide 1 ''A'' 3)" "0 \<le> totalTickets (rosterGuide 2 ''B'' 2)"
    "0 \<le> totalTickets (rosterGuide 3 ''C'' 0)" by (simp_all add: rosterGuide_def)
  have "\<exists>res k'. assignTicketsToGuides half 0 ?gs = Inr (res, k') \<and>
      map ticketNumbers res = [[1, 2, 4], [3, 5], []] \<and>
      mset (concat (map ticketNumbers res)) = mset [1 .. 5]"
  proof (intro exI conjI)
    show "assignTicketsToGuides half 0 ?gs = Inr (res, k')" by (rule r)
    show "map ticketNumbers res = [[1, 2, 4], [3, 5], []]" by (rule t')
    show "mset (concat (map ticketNumbers res)) = mset [1 .. 5]" by (rule m[unfolded s])
  qed
  with unitSource_half q show ?thesis by (intro conjI)
qed

text \<open>
  C3, as stated: \<open>drawRandomTicket\<close> builds a candidate list with exactly one entry per
  ticket of each participant of the pool, and the probability that a participant is drawn
  is exactly their ticket count divided by the total. The list has one entry per ticket of
  each element of the array, so a participant whom the pool lists twice has two entries
  per ticket: for the array at address 7, \<open>[0, 0, 1]\<close>, the guide at address 0 holds 3
  tickets and owns 6 of the 8 candidates.
\<close>

theorem duplicate_entries_counterexample:
  "guideArrays exampleStore 7 = [0, 0, 1] \<and>
   ticketNumbers (guideObjs exampleStore 0) = [1, 2, 4] \<and>
   ticketNumbers (guideObjs exampleStore 1) = [3, 5] \<and>
   allAvailableTickets exampleStore (guideArrays exampleStore 7) =
     [\<lparr>ticket = 1, guide = 0\<rparr>, \<lparr>ticket = 2, guide = 0\<rparr>, \<lparr>ticket = 4, guide = 0\<rparr>,
      \<lparr>ticket = 1, guide = 0\<rparr>, \<lparr>ticket = 2, guide = 0\<rparr>, \<lparr>ticket = 4, guide = 0\<rparr>,
      \<lparr>ticket = 3, guide = 1\<rparr>, \<lparr>ticket = 5, guide = 1\<rparr>] \<and>
   length (filter (\<lambda>c. guide c = 0) (allAvailableTickets exampleStore (guideArrays exampleStore 7))) = 6 \<and>
   length (allAvailableTickets exampleStore (guideArrays exampleStore 7)) = 8 \<and>
   drawRandomTicket exampleStore 7 half 0 = (\<lparr>winner = Some 0, drawnTicket = Some 2\<rparr>, 1) \<and>
   length (filter (\<lambda>c. guide c = 0) (allAvailableTickets exampleStore (guideArrays exampleStore 7)))
     \<noteq> length (ticketNumbers (guideObjs exampleStore 0))"
  by (simp add: example_defs draw_defs)

text \<open>
  C3, amended: for a pool that lists no participant twice, \<open>drawRandomTicket\<close> builds a
  candidate list with exactly one entry per ticket of each participant, in the order of
  the pool, so its length \<open>L\<close> is the total number of tickets; it returns the entry at the
  index \<open>Math.floor(Math.random() * L)\<close>, an index in \<open>0, ..., L - 1\<close>. A participant \<open>g\<close> with
  \<open>n\<close> tickets, listed after participants who hold \<open>off\<close> tickets together, is the winner
  exactly when that index is one of \<open>off, ..., off + n - 1\<close>: \<open>n\<close> of the \<open>L\<close> index values
  draw \<open>g\<close>. So \<open>g\<close> is drawn with probability \<open>n / L\<close> when the index is uniform on
  \<open>0, ..., L - 1\<close>; how the generator and the double product distribute the index is not
  part of the statement.
\<close>

theorem draw_is_ticket_weighted:
  assumes "distinct (guideArrays h a)"
    and "guideArrays h a = pre @ g # post"
    and "cands = allAvailableTickets h (guideArrays h a)"
    and "0 \<le> randomIndex rnd k (length cands)"
    and "randomIndex rnd k (length cands) < int (length cands)"
  shows
   "cands = concat (map (\<lambda>g. map (\<lambda>t. \<lparr>ticket = t, guide = g\<rparr>) (ticketNumbers (guideObjs h g)))
                  (guideArrays h a)) \<and>
    length cands = sum_list (map (\<lambda>g. length (ticketNumbers (guideObjs h g))) (guideArrays h a)) \<and>
    fst (drawRandomTicket h a rnd k) =
      \<lparr>winner = Some (guide (cands ! nat (randomIndex rnd k (length cands)))),
       drawnTicket = Some (ticket (cands ! nat (randomIndex rnd k (length cands))))\<rparr> \<and>
    (winner (fst (drawRandomTicket h a rnd k)) = Some g) =
      (length (allAvailableTickets h pre) \<le> nat (randomIndex rnd k (length cands)) \<and>
       nat (randomIndex rnd k (length cands))
         < length (allAvailableTickets h pre) + length (ticketNumbers (guideObjs h g))) \<and>
    card {j. j < length cands \<and> guide (cands ! j) = g} = length (ticketNumbers (guideObjs h g))"
proof -
  let ?j = "nat (randomIndex rnd k (length cands))"
  have g: "g \<notin> set pre" "g \<notin> set post" using assms(1) unfolding assms(2) by auto
  have jL: "?j < length cands" using assms(4,5) by linarith
  then have ne: "cands \<noteq> []" by auto
  have d: "fst (drawRandomTicket h a rnd k) =
      \<lparr>winner = Some (guide (cands ! ?j)), drawnTicket = Some (ticket (cands ! ?j))\<rparr>"
    using ne unfolding assms(3) by (simp add: drawRandomTicket_def Let_def)
  have c: "cands = allAvailableTickets h (pre @ g # post)" unfolding assms(3,2) ..
  have w: "(winner (fst (drawRandomTicket h a rnd k)) = Some g) =
      (length (allAvailableTickets h pre) \<le> ?j \<and>
       ?j < length (allAvailableTickets h pre) + length (ticketNumbers (guideObjs h g)))"
    using owner_at_index[OF g, of ?j h] jL unfolding d c by simp
  have n: "card {j. j < length cands \<and> guide (cands ! j) = g} = length (ticketNumbers (guideObjs h g))"
    unfolding c owner_positions[OF g] by simp
  have a1: "cands = concat (map (\<lambda>g. map (\<lambda>t. \<lparr>ticket = t, guide = g\<rparr>) (ticketNumbers (guideObjs h g)))
                  (guideArrays h a))" unfolding assms(3) by (rule allAvailableTickets_concat)
  have a2: "length cands = sum_list (map (\<lambda>g. length (ticketNumbers (guideObjs h g))) (guideArrays h a))"
    unfolding assms(3) by (rule allAvailableTickets_length)
  show ?thesis using a1 a2 d w n by (intro conjI)
qed

theorem draw_is_ticket_weighted_witness:
  "distinct (guideArrays exampleStore 3) \<and> guideArrays exampleStore 3 = [] @ 0 # [1] \<and>
   allAvailableTickets exampleStore (guideArrays exampleStore 3) =
     [\<lparr>ticket = 1, guide = 0\<rparr>, \<lparr>ticket = 2, guide = 0\<rparr>, \<lparr>ticket = 4, guide = 0\<rparr>,
      \<lparr>ticket = 3, guide = 1\<rparr>, \<lparr>ticket = 5, guide = 1\<rparr>] \<and>
   randomIndex half 0 5 = 2 \<and>
   fst (drawRandomTicket exampleStore 3 half 0) = \<lparr>winner = Some 0, drawnTicket = Some 4\<rparr> \<and>
   card {j. j < 5 \<and> guide (allAvailableTickets exampleStore (guideArrays exampleStore 3) ! j) = 0} = 3"
proof -
  have c: "allAvailableTickets exampleStore (guideArrays exampleStore 3) =
     [\<lparr>ticket = 1, guide = 0\<rparr>, \<lparr>ticket = 2, guide = 0\<rparr>, \<lparr>ticket = 4, guide = 0\<rparr>,
      \<lparr>ticket = 3, guide = 1\<rparr>, \<lparr>ticket = 5, guide = 1\<rparr>]"
    by (simp add: example_defs allAvailableTickets_def)
  have l: "length (allAvailableTickets exampleStore (guideArrays exampleStore 3)) = 5"
    unfolding c by simp
  have d: "distinct (guideArrays exampleStore 3)" by (simp add: exampleStore_def)
  have p: "guideArrays exampleStore 3 = [] @ 0 # [1]" by (simp add: exampleStore_def)
  have r: "randomIndex half 0 5 = 2" by (simp add: randomIndex_def half_def)
  have r0: "0 \<le> randomIndex half 0 (length (allAvailableTickets exampleStore (guideArrays exampleStore 3)))"
    and r1: "randomIndex half 0 (length (allAvailableTickets exampleStore (guideArrays exampleStore 3)))
              < int (length (allAvailableTickets exampleStore (guideArrays exampleStore 3)))"
    unfolding l by (simp_all add: randomIndex_def half_def)
  note t = draw_is_ticket_weighted[of exampleStore 3 "[]" 0 "[1]" _ half 0, OF d p refl r0 r1]
  have n: "length (ticketNumbers (guideObjs exampleStore 0)) = 3" by (simp add: example_defs)
  from t have "fst (drawRandomTicket exampleStore 3 half 0) =
      \<lparr>winner = Some (guide (allAvailableTickets exampleStore (guideArrays exampleStore 3) !
                  nat (randomIndex half 0 (length (allAvailableTickets exampleStore (guideArrays exampleStore 3)))))),
       drawnTicket = Some (ticket (allAvailableTickets exampleStore (guideArrays exampleStore 3) !
                  nat (randomIndex half 0 (length (allAvailableTickets exampleStore (guideArrays exampleStore 3))))))\<rparr>"
    by blast
  then have w: "fst (drawRandomTicket exampleStore 3 half 0) = \<lparr>winner = Some 0, drawnTicket = Some 4\<rparr>"
    unfolding l r unfolding c by simp
  from t have "card {j. j < length (allAvailableTickets exampleStore (guideArrays exampleStore 3)) \<and>
       guide (allAvailableTickets exampleStore (guideArrays exampleStore 3) ! j) = 0}
     = length (ticketNumbers (guideObjs exampleStore 0))" by blast
  then have k: "card {j. j < 5 \<and> guide (allAvailableTickets exampleStore (guideArrays exampleStore 3) ! j) = 0} = 3"
    unfolding l n .
  show ?thesis using d p c r w k by (intro conjI)
qed

text \<open>
  C4, as stated: when the requested count exceeds the number of distinct participants of
  the pool, \<open>drawRandomTickets\<close> returns as many results as there are distinct
  participants; a pool with one participant and count 5 gives one result. This fails for
  a participant without tickets, who is never drawn: the pool at address 5 holds one
  guide with no tickets, and the session with count 5 returns no result.
\<close>

theorem ticketless_pool_counterexample:
  "guideArrays exampleStore 5 = [2] \<and> card (set (guideArrays exampleStore 5)) = 1 \<and>
   ticketNumbers (guideObjs exampleStore 2) = [] \<and>
   drawRandomTickets exampleStore 5 5 half 0 =
      Inr (\<lparr>winners = [], drawnTickets = []\<rparr>,
           exampleStore\<lparr>guideArrays := (guideArrays exampleStore)(9 := [2]), nextRef := 10\<rparr>, 0) \<and>
   length ([] :: ref list) \<noteq> card (set (guideArrays exampleStore 5))"
  by (simp add: example_defs draw_defs drawLoop.simps)

text \<open>
  C4, amended: for every pool that lists no participant twice and in which no ticket
  number is 0 (the allocator numbers tickets from 1), \<open>drawRandomTickets\<close> returns as many
  results as the smaller of the requested count (a count below 0 counting as 0) and the
  number of participants of the pool who hold at least one ticket. So a count that exceeds
  the number of participants gives one result per participant who holds a ticket, not
  \<open>count\<close> results; a pool with one ticket-holding participant and count 5 gives one
  result.
\<close>

theorem winners_count:
  assumes "unitSource rnd"
    and "distinct (guideArrays h a)"
    and "\<forall>g \<in> set (guideArrays h a). 0 \<notin> set (ticketNumbers (guideObjs h g))"
  shows "\<exists>res h' k'. drawRandomTickets h a count' rnd k = Inr (res, h', k') \<and>
           length (winners res) =
             min (nat count')
                 (card {g \<in> set (guideArrays h a). ticketNumbers (guideObjs h g) \<noteq> []})"
proof -
  let ?s0 = "(h\<lparr>guideArrays := (guideArrays h)(nextRef h := guideArrays h a), nextRef := Suc (nextRef h)\<rparr>,
      \<lparr>winners = [], drawnTickets = []\<rparr>, k)"
  let ?P = "\<lambda>g. ticketNumbers (guideObjs h g) \<noteq> []"
  obtain h' res k' where r: "drawLoop rnd (nextRef h) count' 0 ?s0 = (h', res, k')"
    by (cases "drawLoop rnd (nextRef h) count' 0 ?s0")
  have pre: "\<forall>g \<in> set (guideArrays (fst ?s0) (nextRef h)).
               0 \<notin> set (ticketNumbers (guideObjs (fst ?s0) g))"
    using assms(3) by simp
  from drawLoop_count[OF assms(1) pre, of count' 0]
  have l: "length (winners res) = min (nat count') (length (filter ?P (guideArrays h a)))"
    unfolding r by simp
  have "distinct (filter ?P (guideArrays h a))" using assms(2) by simp
  then have "card (set (filter ?P (guideArrays h a))) = length (filter ?P (guideArrays h a))"
    by (rule distinct_card)
  then have c: "length (filter ?P (guideArrays h a)) = card {g \<in> set (guideArrays h a). ?P g}"
    by simp
  have "drawRandomTickets h a count' rnd k = Inr (res, h', k')"
    by (simp add: drawRandomTickets_unfold r)
  then show ?thesis using l unfolding c by blast
qed

theorem winners_count_witness:
  "unitSource half \<and>
   guideArrays exampleStore 6 = [1] \<and> distinct (guideArrays exampleStore 6) \<and>
   0 \<notin> set (ticketNumbers (guideObjs exampleStore 1)) \<and>
   drawRandomTickets exampleStore 6 5 half 0 =
     Inr (\<lparr>winners = [1], drawnTickets = [5]\<rparr>,
          exampleStore\<lparr>guideArrays := (guideArrays exampleStore)(9 := []), nextRef := 10\<rparr>, 1) \<and>
   length [1 :: ref] =
     min (nat 5) (card {g \<in> set (guideArrays exampleStore 6).
                          ticketNumbers (guideObjs exampleStore g) \<noteq> []})"
proof -
  have p: "\<forall>g \<in> set (guideArrays exampleStore 6). 0 \<notin> set (ticketNumbers (guideObjs exampleStore g))"
    by (simp add: example_defs)
  have d: "distinct (guideArrays exampleStore 6)" by (simp add: exampleStore_def)
  have e: "drawRandomTickets exampleStore 6 5 half 0 =
     Inr (\<lparr>winners = [1], drawnTickets = [5]\<rparr>,
          exampleStore\<lparr>guideArrays := (guideArrays exampleStore)(9 := []), nextRef := 10\<rparr>, 1)"
    by (simp add: example_defs draw_defs drawLoop.simps)
  have q: "guideArrays exampleStore 6 = [1]" "0 \<notin> set (ticketNumbers (guideObjs exampleStore 1))"
    by (simp_all add: example_defs)
  from winners_count[OF unitSource_half d p, of 5 0] e
  have l: "length [1 :: ref] =
     min (nat 5) (card {g \<in> set (guideArrays exampleStore 6).
                          ticketNumbers (guideObjs exampleStore g) \<noteq> []})"
    by auto
  show ?thesis using unitSource_half q(1) d q(2) e l by (intro conjI)
qed

text \<open>
  C5: the ticket that \<open>drawRandomTicket\<close> returns is one of the ticket numbers of the
  winner it returns, and the winner is a guide of the pool; in a session of
  \<open>drawRandomTickets\<close> the \<open>i\<close>-th drawn ticket is one of the ticket numbers of the \<open>i\<close>-th
  winner. The session changes no guide object, so these are the ticket numbers the winner
  held at the moment of the draw and before the session.
\<close>

theorem drawn_ticket_is_owned:
  assumes "unitSource rnd"
  shows "(\<forall>d k' w t. drawRandomTicket h a rnd k = (d, k') \<and> winner d = Some w \<and> drawnTicket d = Some t
            \<longrightarrow> w \<in> set (guideArrays h a) \<and> t \<in> set (ticketNumbers (guideObjs h w))) \<and>
         (\<exists>res h' k'. drawRandomTickets h a count' rnd k = Inr (res, h', k') \<and>
            length (drawnTickets res) = length (winners res) \<and>
            (\<forall>i < length (winners res).
                drawnTickets res ! i \<in> set (ticketNumbers (guideObjs h (winners res ! i)))) \<and>
            guideObjs h' = guideObjs h)"
proof
  show "\<forall>d k' w t. drawRandomTicket h a rnd k = (d, k') \<and> winner d = Some w \<and> drawnTicket d = Some t
            \<longrightarrow> w \<in> set (guideArrays h a) \<and> t \<in> set (ticketNumbers (guideObjs h w))"
  proof (cases "allAvailableTickets h (guideArrays h a) = []")
    case True
    then show ?thesis by (simp add: drawRandomTicket_none)
  next
    case False
    from drawRandomTicket_some[OF assms False, of k] show ?thesis by auto
  qed
next
  from drawRandomTickets_session[OF assms, of h a count' k] obtain res h' k' where
    r: "drawRandomTickets h a count' rnd k = Inr (res, h', k')" and
    i: "sessionInv h (guideArrays h a) (nextRef h) (h', res, k')" by blast
  from i have "length (drawnTickets res) = length (winners res)"
    "\<forall>i < length (winners res).
                drawnTickets res ! i \<in> set (ticketNumbers (guideObjs h (winners res ! i)))"
    "guideObjs h' = guideObjs h"
    by (simp_all add: sessionInv_def)
  with r show "\<exists>res h' k'. drawRandomTickets h a count' rnd k = Inr (res, h', k') \<and>
            length (drawnTickets res) = length (winners res) \<and>
            (\<forall>i < length (winners res).
                drawnTickets res ! i \<in> set (ticketNumbers (guideObjs h (winners res ! i)))) \<and>
            guideObjs h' = guideObjs h" by blast
qed

theorem drawn_ticket_is_owned_witness:
  "unitSource half \<and>
   drawRandomTicket exampleStore 3 half 0 = (\<lparr>winner = Some 0, drawnTicket = Some 4\<rparr>, 1) \<and>
   4 \<in> set (ticketNumbers (guideObjs exampleStore 0)) \<and>
   (\<exists>res h' k'. drawRandomTickets exampleStore 3 2 half 0 = Inr (res, h', k') \<and>
      winners res = [0, 1] \<and> drawnTickets res = [4, 5] \<and>
      drawnTickets res ! 0 \<in> set (ticketNumbers (guideObjs exampleStore (winners res ! 0))) \<and>
      drawnTickets res ! 1 \<in> set (ticketNumbers (guideObjs exampleStore (winners res ! 1))))"
proof -
  have e: "drawRandomTickets exampleStore 3 2 half 0 =
   Inr (\<lparr>winners = [0, 1], drawnTickets = [4, 5]\<rparr>,
        exampleStore\<lparr>guideArrays := (guideArrays exampleStore)(9 := []), nextRef := 10\<rparr>, 2)"
    by (simp add: example_defs draw_defs drawLoop.simps)
  have d: "drawRandomTicket exampleStore 3 half 0 = (\<lparr>winner = Some 0, drawnTicket = Some 4\<rparr>, 1)"
    by (simp add: example_defs draw_defs)
  from drawn_ticket_is_owned[OF unitSource_half, of exampleStore 3 0 2] e d unitSource_half
  show ?thesis by auto
qed

text \<open>
  C6: the allocator applies to the sequence \<open>[1..N]\<close> the shuffle of the specification: the
  loop of the source, started at the last index, returns what \<open>fisherYatesSpec\<close> returns
  when the index picked at step \<open>i\<close> is the value of \<open>Math.floor(Math.random() * (i + 1))\<close>
  at the call of \<open>Math.random()\<close> of that step, and it makes one call per step, for
  \<open>i\<close> from \<open>N - 1\<close> down to \<open>1\<close>. The picked index lies in \<open>[0, i]\<close>. That the index is
  uniform on \<open>[0, i]\<close> is a property of the generator, not of the loop.
\<close>

theorem allocator_shuffle_is_fisherYates:
  "arrayFrom (sumTickets guides) = [1 .. sum_list (map totalTickets guides)] \<and>
   assignTicketsToGuides rnd k guides =
     Inr (snd (fold (assignGuide
                 (fisherYatesSpec
                    (\<lambda>i. nat (randomIndex rnd (k + (nat (sum_list (map totalTickets guides)) - 1 - i)) (i + 1)))
                    [1 .. sum_list (map totalTickets guides)]))
               guides (0, [])),
          k + (nat (sum_list (map totalTickets guides)) - 1)) \<and>
   shuffle rnd k (length xs - 1) xs =
     (fisherYatesSpec (\<lambda>i. nat (randomIndex rnd (k + (length xs - 1 - i)) (i + 1))) xs,
      k + (length xs - 1)) \<and>
   (unitSource rnd \<longrightarrow>
      (\<forall>i m. 0 \<le> randomIndex rnd m (i + 1) \<and> nat (randomIndex rnd m (i + 1)) \<le> i))"
proof (intro conjI)
  let ?N = "sum_list (map totalTickets guides)"
  show a: "arrayFrom (sumTickets guides) = [1 .. ?N]"
    by (simp add: arrayFrom_upto sumTickets_sum_list)
  have sh: "shuffle rnd k (length xs - 1) xs =
     (fisherYatesSpec (\<lambda>i. nat (randomIndex rnd (k + (length xs - 1 - i)) (i + 1))) xs,
      k + (length xs - 1))" for xs
  proof (cases xs)
    case Nil
    then show ?thesis by (simp add: shuffle_fold fisherYatesSpec_def)
  next
    case (Cons x ys)
    then show ?thesis by (simp add: shuffle_fold fisherYatesSpec_def)
  qed
  show "shuffle rnd k (length xs - 1) xs =
     (fisherYatesSpec (\<lambda>i. nat (randomIndex rnd (k + (length xs - 1 - i)) (i + 1))) xs,
      k + (length xs - 1))" by (rule sh)
  have l: "length [1 .. ?N] = nat ?N" by simp
  show "assignTicketsToGuides rnd k guides =
     Inr (snd (fold (assignGuide
                 (fisherYatesSpec
                    (\<lambda>i. nat (randomIndex rnd (k + (nat ?N - 1 - i)) (i + 1)))
                    [1 .. ?N]))
               guides (0, [])),
          k + (nat ?N - 1))"
  proof -
    have s': "shuffle rnd k (nat ?N - 1) [1 .. ?N] =
       (fisherYatesSpec (\<lambda>i. nat (randomIndex rnd (k + (nat ?N - 1 - i)) (i + 1))) [1 .. ?N],
        k + (nat ?N - 1))"
      using sh[of "[1 .. ?N]"] unfolding l .
    show ?thesis
      by (simp only: assignTicketsToGuides_unfold a l s' fst_conv snd_conv)
  qed
  show "unitSource rnd \<longrightarrow>
      (\<forall>i m. 0 \<le> randomIndex rnd m (i + 1) \<and> nat (randomIndex rnd m (i + 1)) \<le> i)"
  proof (intro impI allI conjI)
    fix i m assume u: "unitSource rnd"
    show "0 \<le> randomIndex rnd m (i + 1)" using randomIndex_range(1)[OF u, of "i + 1" m] by simp
    show "nat (randomIndex rnd m (i + 1)) \<le> i" using u by (rule randomIndex_nat_le)
  qed
qed

theorem allocator_shuffle_is_fisherYates_witness:
  "unitSource half \<and>
   shuffle half 0 (length [1, 2, 3, 4, 5 :: int] - 1) [1, 2, 3, 4, 5] = ([1, 4, 2, 5, 3], 4) \<and>
   fisherYatesSpec (\<lambda>i. nat (randomIndex half (0 + (length [1, 2, 3, 4, 5 :: int] - 1 - i)) (i + 1)))
      [1, 2, 3, 4, 5] = [1, 4, 2, 5, 3] \<and>
   randomIndex half 0 (4 + 1) = 2 \<and>
   0 \<le> randomIndex half 0 (4 + 1) \<and> nat (randomIndex half 0 (4 + 1)) \<le> 4"
proof -
  have f: "fisherYatesSpec (\<lambda>i. nat (randomIndex half (0 + (length [1, 2, 3, 4, 5 :: int] - 1 - i)) (i + 1)))
      [1, 2, 3, 4, 5] = [1, 4, 2, 5, 3]"
    by (simp add: fisherYatesSpec_def randomIndex_def half_def upt_rec)
  note t = allocator_shuffle_is_fisherYates[of "[]" half 0 "[1, 2, 3, 4, 5]"]
  from t have "shuffle half 0 (length [1, 2, 3, 4, 5 :: int] - 1) [1, 2, 3, 4, 5] =
     (fisherYatesSpec (\<lambda>i. nat (randomIndex half (0 + (length [1, 2, 3, 4, 5 :: int] - 1 - i)) (i + 1)))
        [1, 2, 3, 4, 5], 0 + (length [1, 2, 3, 4, 5 :: int] - 1))"
    by blast
  then have s: "shuffle half 0 (length [1, 2, 3, 4, 5 :: int] - 1) [1, 2, 3, 4, 5] = ([1, 4, 2, 5, 3], 4)"
    unfolding f by simp
  from t unitSource_half
  have "\<forall>i m. 0 \<le> randomIndex half m (i + 1) \<and> nat (randomIndex half m (i + 1)) \<le> i" by blast
  then have r: "0 \<le> randomIndex half 0 (4 + 1)" "nat (randomIndex half 0 (4 + 1)) \<le> 4" by blast+
  have e: "randomIndex half 0 (4 + 1) = 2" by (simp add: randomIndex_def half_def)
  show ?thesis using unitSource_half s f e r by (intro conjI)
qed

text \<open>
  C7, as stated: \<open>assignTicketsToGuides\<close> fails with \<open>InvalidInputError\<close> when a ticket count
  is negative or not an integer. The source validates nothing. For the counts 3 and -1
  the sum is 2, the array of tickets is \<open>[1, 2]\<close>, the first guide receives both and the
  second none, and the call returns.
\<close>

theorem negative_count_counterexample:
  "totalTickets (rosterGuide 2 ''B'' (-1)) < 0 \<and>
   assignTicketsToGuides half 0 [rosterGuide 1 ''A'' 3, rosterGuide 2 ''B'' (-1)] =
     Inr ([\<lparr>guideId = 1, name = ''A'', supervisor = ''S'', department = ''D'', nps = 0, nrpc = 0,
             refundPercent = 0, totalTickets = 3, ticketNumbers = [1, 2],
             ticketRange = \<lparr>rangeStart = 1, rangeEnd = 2\<rparr>\<rparr>,
           \<lparr>guideId = 2, name = ''B'', supervisor = ''S'', department = ''D'', nps = 0, nrpc = 0,
             refundPercent = 0, totalTickets = -1, ticketNumbers = [],
             ticketRange = \<lparr>rangeStart = 0, rangeEnd = 0\<rparr>\<rparr>], 1) \<and>
   assignTicketsToGuides half 0 [rosterGuide 1 ''A'' 3, rosterGuide 2 ''B'' (-1)]
     \<noteq> Inl InvalidInputError"
  by (simp add: alloc_defs example_defs shuffle.simps pushTickets.simps upt_rec)

text \<open>
  C7, amended: \<open>assignTicketsToGuides\<close> never fails: for every list of guides with integer
  ticket counts, negative counts included, it returns one output per guide, and a guide
  whose count is negative or 0 receives no ticket numbers and the range \<open>{0, 0}\<close>.
\<close>

theorem allocation_never_fails:
  "\<exists>res k'. assignTicketsToGuides rnd k guides = Inr (res, k') \<and>
     length res = length guides \<and>
     (\<forall>i < length guides. totalTickets (guides ! i) \<le> 0 \<longrightarrow>
        ticketNumbers (res ! i) = [] \<and>
        ticketRange (res ! i) = \<lparr>rangeStart = 0, rangeEnd = 0\<rparr>)"
proof -
  let ?a = "arrayFrom (sumTickets guides)"
  let ?sh = "fst (shuffle rnd k (length ?a - 1) ?a)"
  let ?res = "snd (fold (assignGuide ?sh) guides (0, []))"
  have r: "assignTicketsToGuides rnd k guides =
             Inr (?res, snd (shuffle rnd k (length ?a - 1) ?a))"
    by (rule assignTicketsToGuides_unfold)
  have len: "length ?res = length guides" by (rule fold_assignGuide_length)
  have "\<forall>i < length guides. totalTickets (guides ! i) \<le> 0 \<longrightarrow>
        ticketNumbers (?res ! i) = [] \<and>
        ticketRange (?res ! i) = \<lparr>rangeStart = 0, rangeEnd = 0\<rparr>"
    using fold_assignGuide_nonpositive[of _ guides ?sh 0] by blast
  with r len show ?thesis by blast
qed

theorem allocation_never_fails_witness:
  "totalTickets ([rosterGuide 1 ''A'' 3, rosterGuide 2 ''B'' (-1)] ! 1) \<le> 0 \<and>
   (\<exists>res k'. assignTicketsToGuides half 0 [rosterGuide 1 ''A'' 3, rosterGuide 2 ''B'' (-1)] = Inr (res, k') \<and>
      length res = 2 \<and> ticketNumbers (res ! 1) = [] \<and>
      ticketRange (res ! 1) = \<lparr>rangeStart = 0, rangeEnd = 0\<rparr>)"
  using allocation_never_fails[of half 0 "[rosterGuide 1 ''A'' 3, rosterGuide 2 ''B'' (-1)]"]
  by (auto simp: rosterGuide_def)

text \<open>
  C8, as stated: \<open>drawRandomTickets\<close> fails with \<open>InvalidInputError\<close> when the requested count
  is at most 0. The source validates nothing: with count 0 the loop does not run and the
  call returns two empty arrays, here for the pool at address 3 that holds two guides.
\<close>

theorem nonpositive_count_counterexample:
  "guideArrays exampleStore 3 = [0, 1] \<and>
   drawRandomTickets exampleStore 3 0 half 0 =
     Inr (\<lparr>winners = [], drawnTickets = []\<rparr>,
          exampleStore\<lparr>guideArrays := (guideArrays exampleStore)(9 := [0, 1]), nextRef := 10\<rparr>, 0) \<and>
   drawRandomTickets exampleStore 3 0 half 0 \<noteq> Inl InvalidInputError"
  by (simp add: example_defs draw_defs drawLoop.simps)

text \<open>
  C8, amended: for every requested count that is at most 0, \<open>drawRandomTickets\<close> returns
  empty \<open>winners\<close> and \<open>drawnTickets\<close> and no error; it copies the pool and makes no call of
  \<open>Math.random()\<close>.
\<close>

theorem nonpositive_count_draws_nothing:
  "count' \<le> 0 \<Longrightarrow>
     drawRandomTickets h a count' rnd k =
       Inr (\<lparr>winners = [], drawnTickets = []\<rparr>, snd (copyArray h a), k)"
  by (simp add: drawRandomTickets_unfold drawLoop_stop copyArray_def)

theorem nonpositive_count_witness:
  "(-1::int) \<le> 0 \<and>
   drawRandomTickets exampleStore 3 (-1) half 0 =
       Inr (\<lparr>winners = [], drawnTickets = []\<rparr>, snd (copyArray exampleStore 3), 0)"
  using nonpositive_count_draws_nothing[of "-1" exampleStore 3 half 0] by simp

text \<open>
  C9: empty inputs give empty results and no error. \<open>assignTicketsToGuides\<close> of the empty
  list returns the empty list, and \<open>drawRandomTickets\<close> of an empty pool returns empty
  \<open>winners\<close> and \<open>drawnTickets\<close> for every requested count, without a call of
  \<open>Math.random()\<close>.
\<close>

theorem empty_inputs_give_empty_results:
  "assignTicketsToGuides rnd k [] = Inr ([], k) \<and>
   (guideArrays h a = [] \<longrightarrow>
      (\<exists>h'. drawRandomTickets h a count' rnd k =
              Inr (\<lparr>winners = [], drawnTickets = []\<rparr>, h', k)))"
proof
  have "shuffle rnd k 0 [] = ([], k)" by (subst shuffle.simps) simp
  then show "assignTicketsToGuides rnd k [] = Inr ([], k)"
    by (simp add: assignTicketsToGuides_def sumTickets_def arrayFrom_def)
next
  show "guideArrays h a = [] \<longrightarrow>
      (\<exists>h'. drawRandomTickets h a count' rnd k =
              Inr (\<lparr>winners = [], drawnTickets = []\<rparr>, h', k))"
    by (simp add: drawRandomTickets_unfold drawLoop_stop)
qed

theorem empty_inputs_witness:
  "assignTicketsToGuides half 0 [] = Inr ([], 0) \<and>
   guideArrays exampleStore 8 = [] \<and>
   (\<exists>h'. drawRandomTickets exampleStore 8 3 half 0 =
              Inr (\<lparr>winners = [], drawnTickets = []\<rparr>, h', 0))"
  using empty_inputs_give_empty_results[of half 0 exampleStore 8 3]
  by (simp add: exampleStore_def)

text \<open>
  C10: a draw does not change its input. \<open>drawRandomTicket\<close> has no write to the store at
  all (its model returns no store). \<open>drawRandomTickets\<close> removes winners from its copy only:
  after the call the array it was given, every other array that existed before the call
  and every guide object (so every \<open>ticketNumbers\<close>) are as they were, and the copy, at
  the address that was free before the call, holds the guides of the pool that did not
  win.
\<close>

theorem draw_leaves_input_unchanged:
  assumes "a < nextRef h"
  shows "\<exists>res h' k'. drawRandomTickets h a count' rnd k = Inr (res, h', k') \<and>
           guideArrays h' a = guideArrays h a \<and>
           (\<forall>b. b < nextRef h \<longrightarrow> guideArrays h' b = guideArrays h b) \<and>
           guideObjs h' = guideObjs h \<and>
           (unitSource rnd \<longrightarrow>
              mset (winners res) + mset (guideArrays h' (nextRef h)) = mset (guideArrays h a))"
proof -
  let ?h1 = "h\<lparr>guideArrays := (guideArrays h)(nextRef h := guideArrays h a),
               nextRef := Suc (nextRef h)\<rparr>"
  let ?s0 = "(?h1, \<lparr>winners = [], drawnTickets = []\<rparr>, k)"
  obtain h' res k' where r: "drawLoop rnd (nextRef h) count' 0 ?s0 = (h', res, k')"
    by (cases "drawLoop rnd (nextRef h) count' 0 ?s0")
  have "frameInv ?h1 (nextRef h) ?s0" by (simp add: frameInv_def)
  from drawLoop_frame[OF this, of rnd count' 0]
  have f: "guideObjs h' = guideObjs h"
    "\<forall>b. b \<noteq> nextRef h \<longrightarrow> guideArrays h' b = guideArrays h b"
    unfolding r by (simp_all add: frameInv_def)
  have c: "unitSource rnd \<longrightarrow>
              mset (winners res) + mset (guideArrays h' (nextRef h)) = mset (guideArrays h a)"
  proof
    assume u: "unitSource rnd"
    from drawLoop_session[OF u session_start, of h a count' 0 k]
    show "mset (winners res) + mset (guideArrays h' (nextRef h)) = mset (guideArrays h a)"
      unfolding r by (simp add: sessionInv_def)
  qed
  have "drawRandomTickets h a count' rnd k = Inr (res, h', k')"
    by (simp add: drawRandomTickets_unfold r)
  moreover have "guideArrays h' a = guideArrays h a" using f(2) assms by simp
  moreover have "\<forall>b. b < nextRef h \<longrightarrow> guideArrays h' b = guideArrays h b" using f(2) by simp
  ultimately show ?thesis using f(1) c by blast
qed

theorem draw_leaves_input_unchanged_witness:
  "(3::nat) < nextRef exampleStore \<and>
   (\<exists>res h' k'. drawRandomTickets exampleStore 3 2 half 0 = Inr (res, h', k') \<and>
      winners res = [0, 1] \<and>
      guideArrays h' 3 = [0, 1] \<and> guideObjs h' = guideObjs exampleStore)"
proof -
  have n: "(3::nat) < nextRef exampleStore" by (simp add: exampleStore_def)
  have e: "drawRandomTickets exampleStore 3 2 half 0 =
   Inr (\<lparr>winners = [0, 1], drawnTickets = [4, 5]\<rparr>,
        exampleStore\<lparr>guideArrays := (guideArrays exampleStore)(9 := []), nextRef := 10\<rparr>, 2)"
    by (simp add: example_defs draw_defs drawLoop.simps)
  have a: "guideArrays exampleStore 3 = [0, 1]" by (simp add: exampleStore_def)
  from draw_leaves_input_unchanged[OF n, of 2 half 0] e a n show ?thesis by auto
qed

end
